theory Spec2Isabelle
  imports Main "HOL-Library.List_Lexorder" "HOL-Library.Multiset"
begin

section \<open>Strings, errors and the operating system\<close>

text \<open>
  A Python \<open>str\<close> is a sequence of Unicode code points, and \<open>sorted\<close> compares two of
  them code point by code point, a proper prefix being the smaller one. That is the
  lexicographic order of \<open>HOL-Library.List_Lexorder\<close> on lists of naturals, so a string
  is a list of code points and \<open>len\<close> is \<open>length\<close>.
\<close>

type_synonym codepoint = nat
type_synonym str = "codepoint list"

text \<open>An ASCII literal of the source.\<close>

definition lit :: "string \<Rightarrow> str" where
  "lit s = map of_char s"

text \<open>\<open>s.startswith(p)\<close>\<close>

definition startswith :: "str \<Rightarrow> str \<Rightarrow> bool" where
  "startswith s p = (take (length p) s = p)"

text \<open>
  The box-drawing literals of the source, as code points: U+2514, U+251C and U+2502 are
  the corner, the tee and the vertical bar, U+2500 is the horizontal bar, 32 the space.
\<close>

definition glyph_last :: str where
  "glyph_last = [9492, 9472, 9472, 32]"

definition glyph_tee :: str where
  "glyph_tee = [9500, 9472, 9472, 32]"

definition seg_blank :: str where
  "seg_blank = [32, 32, 32, 32]"

definition seg_bar :: str where
  "seg_bar = [9474, 32, 32, 32]"

text \<open>The exceptions \<open>os.listdir\<close> can raise; only the first is caught by the source.\<close>

datatype os_error = PermissionError | FileNotFoundError | NotADirectoryError | OSError

text \<open>
  The three operations of the \<open>os\<close> module that the source calls. The state of the
  file system is what \<open>listdir\<close> and \<open>isdir\<close> answer; \<open>listdir\<close> returns the names in
  any order, or raises.
\<close>

record os =
  listdir :: "str \<Rightarrow> os_error + str list"
  isdir :: "str \<Rightarrow> bool"
  join :: "str \<Rightarrow> str \<Rightarrow> str"

text \<open>\<open>os.path.join\<close> with two arguments, as \<open>posixpath\<close> defines it.\<close>

definition posix_join :: "str \<Rightarrow> str \<Rightarrow> str" where
  "posix_join a b =
     (if startswith b (lit ''/'') then b
      else if a = [] \<or> startswith (rev a) (lit ''/'') then a @ b
      else a @ lit ''/'' @ b)"

section \<open>The tree builder\<close>

text \<open>The filter of lines 12 to 15: neither hidden nor \<open>node_modules\<close>.\<close>

definition visible :: "str \<Rightarrow> bool" where
  "visible entry = (\<not> startswith entry (lit ''.'') \<and> entry \<noteq> lit ''node_modules'')"

text \<open>
  The \<open>for\<close> loop of lines 17 to 26 over \<open>enumerate(entries)\<close>, with \<open>output_lines\<close> as
  the accumulator. \<open>rec\<close> is the recursive call of line 26; an exception raised inside
  it leaves the loop and the function (\<open>Inl\<close>), and so does a call that does not return
  (\<open>None\<close>).
\<close>

fun for_entries ::
  "(str \<Rightarrow> str \<Rightarrow> (os_error + str list) option) \<Rightarrow> os \<Rightarrow> str \<Rightarrow> str \<Rightarrow> str list
     \<Rightarrow> (nat \<times> str) list \<Rightarrow> str list \<Rightarrow> (os_error + str list) option" where
  "for_entries rec os start_path prefix entries [] output_lines = Some (Inr output_lines)"
| "for_entries rec os start_path prefix entries ((index, entry) # rest) output_lines =
     (let path = join os start_path entry;
          is_last = (int index = int (length entries) - 1);
          connector = (if is_last then glyph_last else glyph_tee);
          output_lines = output_lines @ [prefix @ connector @ entry]
      in if isdir os path then
           (let new_prefix = prefix @ (if is_last then seg_blank else seg_bar)
            in case rec path new_prefix of
                 None \<Rightarrow> None
               | Some (Inl e) \<Rightarrow> Some (Inl e)
               | Some (Inr sub) \<Rightarrow>
                   for_entries rec os start_path prefix entries rest (output_lines @ sub))
         else for_entries rec os start_path prefix entries rest output_lines)"

text \<open>
  \<open>build_tree\<close>, lines 3 to 28. The recursion follows the file system, which may contain
  a cycle, so the model counts the nesting of calls down from \<open>fuel\<close>: \<open>None\<close> is a call
  that needs more nesting than that, \<open>Some (Inl e)\<close> an uncaught exception and
  \<open>Some (Inr lines)\<close> the returned list.
\<close>

fun build_tree :: "nat \<Rightarrow> os \<Rightarrow> str \<Rightarrow> str \<Rightarrow> (os_error + str list) option" where
  "build_tree 0 os start_path prefix = None"
| "build_tree (Suc fuel) os start_path prefix =
     (case listdir os start_path of
        Inl PermissionError \<Rightarrow> Some (Inr [])
      | Inl e \<Rightarrow> Some (Inl e)
      | Inr names \<Rightarrow>
          (let entries = filter visible (sort names)
           in for_entries (build_tree fuel os) os start_path prefix entries
                (List.enumerate 0 entries) []))"

text \<open>Lines 37 and 38 of the entry point: the root path, then the tree.\<close>

definition main_lines :: "nat \<Rightarrow> os \<Rightarrow> str \<Rightarrow> (os_error + str list) option" where
  "main_lines fuel os directory =
     (case build_tree fuel os directory [] of
        None \<Rightarrow> None
      | Some (Inl e) \<Rightarrow> Some (Inl e)
      | Some (Inr tree) \<Rightarrow> Some (Inr ([directory] @ tree)))"

text \<open>The lines of a result changed by \<open>f\<close>; an exception or a missing result stays.\<close>

definition map_lines ::
  "(str \<Rightarrow> str) \<Rightarrow> (os_error + str list) option \<Rightarrow> (os_error + str list) option" where
  "map_lines f r =
     (case r of
        None \<Rightarrow> None
      | Some (Inl e) \<Rightarrow> Some (Inl e)
      | Some (Inr ls) \<Rightarrow> Some (Inr (map f ls)))"

section \<open>Directories reached and file system trees\<close>

text \<open>
  \<open>descend os p es\<close> is the directory reached from \<open>p\<close> by the names \<open>es\<close>, one level
  each, when every one of them is listed in the directory before it, passes the filter
  and is a directory: the paths on which \<open>build_tree\<close> started at \<open>p\<close> calls itself, at
  recursion depth \<open>length es\<close>.
\<close>

fun descend :: "os \<Rightarrow> str \<Rightarrow> str list \<Rightarrow> str option" where
  "descend os p [] = Some p"
| "descend os p (e # es) =
     (case listdir os p of
        Inr names \<Rightarrow>
          if e \<in> set names \<and> visible e \<and> isdir os (join os p e)
          then descend os (join os p e) es else None
      | Inl _ \<Rightarrow> None)"

text \<open>
  A finite directory tree: a file, a directory that may not be listed, or a directory
  with its named children.
\<close>

datatype tree = File | Locked | Dir "(str \<times> tree) list"

fun is_dir :: "tree \<Rightarrow> bool" where
  "is_dir File = False"
| "is_dir Locked = True"
| "is_dir (Dir children) = True"

text \<open>
  \<open>tree_at os p t\<close>: seen from the path \<open>p\<close>, the file system is the tree \<open>t\<close>. Listing
  a file raises \<open>NotADirectoryError\<close>, listing a locked directory raises
  \<open>PermissionError\<close>, and a directory lists the names of its children in some order. A
  file system with a cycle below \<open>p\<close> is no tree.
\<close>

fun tree_at :: "os \<Rightarrow> str \<Rightarrow> tree \<Rightarrow> bool" where
  "tree_at os p File = (listdir os p = Inl NotADirectoryError)"
| "tree_at os p Locked = (listdir os p = Inl PermissionError)"
| "tree_at os p (Dir children) =
     ((case listdir os p of
         Inr names \<Rightarrow> mset names = mset (map fst children)
       | Inl _ \<Rightarrow> False)
      \<and> (\<forall>(name, child) \<in> set children.
            isdir os (join os p name) = is_dir child \<and> tree_at os (join os p name) child))"

text \<open>The nesting of directories in a tree.\<close>

fun height :: "tree \<Rightarrow> nat" where
  "height File = 0"
| "height Locked = 0"
| "height (Dir children) = Suc (Max (set (0 # map (\<lambda>(name, child). height child) children)))"

text \<open>The files and directories below the root of a tree, the root not counted.\<close>

fun count :: "tree \<Rightarrow> nat" where
  "count File = 0"
| "count Locked = 0"
| "count (Dir children) = sum_list (map (\<lambda>(name, child). Suc (count child)) children)"

text \<open>No name in the tree is hidden or \<open>node_modules\<close>.\<close>

fun all_visible :: "tree \<Rightarrow> bool" where
  "all_visible File = True"
| "all_visible Locked = True"
| "all_visible (Dir children) =
     (\<forall>(name, child) \<in> set children. visible name \<and> all_visible child)"

section \<open>Example file systems\<close>

text \<open>
  The example of the specification: a root holding the files \<open>a.txt\<close> and \<open>z.txt\<close> and
  the directory \<open>sub\<close>, which holds \<open>inner.txt\<close>. \<open>listdir\<close> answers in no particular
  order.
\<close>

definition example_os :: os where
  "example_os =
     \<lparr> listdir = (\<lambda>p.
         if p = lit ''root'' then Inr [lit ''z.txt'', lit ''sub'', lit ''a.txt'']
         else if p = lit ''root/sub'' then Inr [lit ''inner.txt'']
         else if p = lit ''root/a.txt'' \<or> p = lit ''root/z.txt'' \<or> p = lit ''root/sub/inner.txt''
           then Inl NotADirectoryError
         else Inl FileNotFoundError),
       isdir = (\<lambda>p. p = lit ''root'' \<or> p = lit ''root/sub''),
       join = posix_join \<rparr>"

text \<open>
  A project directory with a hidden directory, a \<open>node_modules\<close> directory, a directory
  that may not be listed and a source directory that holds a hidden file.
\<close>

definition project_os :: os where
  "project_os =
     \<lparr> listdir = (\<lambda>p.
         if p = lit ''proj''
           then Inr [lit ''src'', lit ''.git'', lit ''node_modules'', lit ''locked'', lit ''README'']
         else if p = lit ''proj/src'' then Inr [lit ''main.py'', lit ''.secret'']
         else if p = lit ''proj/.git'' then Inr [lit ''config'']
         else if p = lit ''proj/node_modules'' then Inr [lit ''pkg'']
         else if p = lit ''proj/locked'' then Inl PermissionError
         else Inl FileNotFoundError),
       isdir = (\<lambda>p. p = lit ''proj'' \<or> p = lit ''proj/src'' \<or> p = lit ''proj/.git''
                 \<or> p = lit ''proj/node_modules'' \<or> p = lit ''proj/locked''),
       join = posix_join \<rparr>"

text \<open>A directory holding the files \<open>b\<close>, \<open>a\<close> and \<open>c\<close>, listed in that order.\<close>

definition abc_os :: os where
  "abc_os =
     \<lparr> listdir = (\<lambda>p. if p = lit ''d'' then Inr [lit ''b'', lit ''a'', lit ''c'']
                       else Inl NotADirectoryError),
       isdir = (\<lambda>p. p = lit ''d''),
       join = posix_join \<rparr>"

text \<open>The tree of \<open>example_os\<close> at \<open>root\<close>.\<close>

definition example_tree_of :: tree where
  "example_tree_of =
     Dir [(lit ''z.txt'', File), (lit ''sub'', Dir [(lit ''inner.txt'', File)]),
          (lit ''a.txt'', File)]"

text \<open>
  \<open>example_os\<close> with every listing answered in the opposite order: the same file system,
  seen through another \<open>os.listdir\<close>.
\<close>

definition example_os_reversed :: os where
  "example_os_reversed =
     example_os \<lparr> listdir := (\<lambda>p. case listdir example_os p of
                                     Inl e \<Rightarrow> Inl e | Inr names \<Rightarrow> Inr (rev names)) \<rparr>"

section \<open>Basic facts about the loop\<close>

lemma map_lines_simps [simp]:
  "map_lines f None = None"
  "map_lines f (Some (Inl e)) = Some (Inl e)"
  "map_lines f (Some (Inr ls)) = Some (Inr (map f ls))"
  by (simp_all add: map_lines_def)

lemma is_last_iff: "(int i = int n - 1) = (Suc i = n)"
  by arith

lemma for_entries_prepend:
  assumes "\<And>path pre. rec path (p @ pre) = map_lines ((@) p) (rec path pre)"
  shows "for_entries rec os sp (p @ prefix) entries ies (map ((@) p) acc) =
         map_lines ((@) p) (for_entries rec os sp prefix entries ies acc)"
proof (induction ies arbitrary: acc)
  case Nil
  show ?case by simp
next
  case (Cons ie ies)
  obtain i e where ie: "ie = (i, e)" by (cases ie)
  let ?c = "if int i = int (length entries) - 1 then glyph_last else glyph_tee"
  let ?s = "if int i = int (length entries) - 1 then seg_blank else seg_bar"
  let ?acc = "acc @ [prefix @ ?c @ e]"
  have acc: "map ((@) p) acc @ [(p @ prefix) @ ?c @ e] = map ((@) p) ?acc"
    by simp
  show ?case
  proof (cases "isdir os (join os sp e)")
    case False
    then show ?thesis
      using Cons.IH [of ?acc] by (simp add: ie Let_def)
  next
    case True
    have r: "rec (join os sp e) ((p @ prefix) @ ?s) =
             map_lines ((@) p) (rec (join os sp e) (prefix @ ?s))"
      using assms [of "join os sp e" "prefix @ ?s"] by simp
    show ?thesis
    proof (cases "rec (join os sp e) (prefix @ ?s)")
      case None
      then show ?thesis using True r by (simp add: ie Let_def)
    next
      case (Some res)
      show ?thesis
      proof (cases res)
        case (Inl err)
        then show ?thesis using True r Some by (simp add: ie Let_def)
      next
        case (Inr sub)
        have "map ((@) p) ?acc @ map ((@) p) sub = map ((@) p) (?acc @ sub)" by simp
        then show ?thesis
          using True r Some Inr Cons.IH [of "?acc @ sub"] by (simp add: ie Let_def)
      qed
    qed
  qed
qed

lemma build_tree_prepend:
  "build_tree fuel os path (p @ pre) =
   map_lines ((@) p) (build_tree fuel os path pre)"
proof (induction fuel arbitrary: path pre)
  case 0
  show ?case by simp
next
  case (Suc fuel)
  show ?case
  proof (cases "listdir os path")
    case (Inl err)
    then show ?thesis by (cases err) simp_all
  next
    case (Inr names)
    have "for_entries (build_tree fuel os) os path (p @ pre) (filter visible (sort names))
            (List.enumerate 0 (filter visible (sort names))) (map ((@) p) []) =
          map_lines ((@) p)
            (for_entries (build_tree fuel os) os path pre (filter visible (sort names))
               (List.enumerate 0 (filter visible (sort names))) [])"
      by (rule for_entries_prepend) (rule Suc.IH)
    then show ?thesis using Inr by (simp add: Let_def)
  qed
qed

lemma for_entries_blocks:
  assumes "\<And>i e. (i, e) \<in> set ies \<Longrightarrow> isdir os (join os p e) \<Longrightarrow>
             rec (join os p e) (prefix @ (if Suc i = length entries then seg_blank else seg_bar))
               = Some (Inr (sub i e))"
  shows "for_entries rec os p prefix entries ies acc =
         Some (Inr (acc @ concat (map (\<lambda>(i, e).
           (prefix @ (if Suc i = length entries then glyph_last else glyph_tee) @ e)
             # (if isdir os (join os p e) then sub i e else [])) ies)))"
  using assms
proof (induction ies arbitrary: acc)
  case Nil
  show ?case by simp
next
  case (Cons ie ies)
  obtain i e where ie: "ie = (i, e)" by (cases ie)
  have rest: "\<And>acc'. for_entries rec os p prefix entries ies acc' =
         Some (Inr (acc' @ concat (map (\<lambda>(i, e).
           (prefix @ (if Suc i = length entries then glyph_last else glyph_tee) @ e)
             # (if isdir os (join os p e) then sub i e else [])) ies)))"
    by (rule Cons.IH) (simp add: Cons.prems)
  show ?case
  proof (cases "isdir os (join os p e)")
    case False
    then show ?thesis by (simp add: ie Let_def is_last_iff rest)
  next
    case True
    have "rec (join os p e) (prefix @ (if Suc i = length entries then seg_blank else seg_bar))
            = Some (Inr (sub i e))"
      by (rule Cons.prems) (simp_all add: ie True)
    then show ?thesis using True by (simp add: ie Let_def is_last_iff rest)
  qed
qed

lemma for_entries_calls:
  assumes "for_entries rec os p prefix entries ies acc = Some (Inr lines)"
    and "(i, e) \<in> set ies" and "isdir os (join os p e)"
  shows "\<exists>s. rec (join os p e) (prefix @ (if Suc i = length entries then seg_blank else seg_bar))
               = Some (Inr s)"
  using assms
proof (induction ies arbitrary: acc)
  case Nil
  then show ?case by simp
next
  case (Cons ie ies)
  obtain j f where ie: "ie = (j, f)" by (cases ie)
  show ?case
  proof (cases "(i, e) = (j, f)")
    case True
    with Cons.prems(1,3) show ?thesis
      by (auto simp: ie Let_def is_last_iff split: option.splits sum.splits if_splits)
  next
    case False
    with Cons.prems(2) have mem: "(i, e) \<in> set ies" by (auto simp: ie)
    from Cons.prems(1) obtain acc' where "for_entries rec os p prefix entries ies acc' = Some (Inr lines)"
      by (auto simp: ie Let_def split: option.splits sum.splits if_splits)
    then show ?thesis using mem Cons.prems(3) by (rule Cons.IH)
  qed
qed

lemma map_enumerate:
  "map (\<lambda>(i, e). f i e) (List.enumerate 0 xs) = map (\<lambda>i. f i (xs ! i)) [0..<length xs]"
  by (rule nth_equalityI) (simp_all add: nth_enumerate_eq)

lemma in_set_enumerate:
  "(i, e) \<in> set (List.enumerate 0 xs) \<longleftrightarrow> i < length xs \<and> xs ! i = e"
  by (auto simp: in_set_conv_nth nth_enumerate_eq)


lemma build_tree_blocks:
  assumes ld: "listdir os p = Inr names"
    and en: "entries = filter visible (sort names)"
    and sub: "\<And>i. i < length entries \<Longrightarrow> isdir os (join os p (entries ! i)) \<Longrightarrow>
             build_tree fuel os (join os p (entries ! i))
               (prefix @ (if Suc i = length entries then seg_blank else seg_bar)) = Some (Inr (sub i))"
  shows "build_tree (Suc fuel) os p prefix =
         Some (Inr (concat (map (\<lambda>i.
           (prefix @ (if Suc i = length entries then glyph_last else glyph_tee) @ entries ! i)
             # (if isdir os (join os p (entries ! i)) then sub i else [])) [0..<length entries])))"
proof -
  have "for_entries (build_tree fuel os) os p prefix entries (List.enumerate 0 entries) [] =
        Some (Inr ([] @ concat (map (\<lambda>(i, e).
           (prefix @ (if Suc i = length entries then glyph_last else glyph_tee) @ e)
             # (if isdir os (join os p e) then sub i else [])) (List.enumerate 0 entries))))"
    by (rule for_entries_blocks) (auto simp: in_set_enumerate sub)
  then show ?thesis using ld en by (simp add: map_enumerate Let_def)
qed

lemma build_tree_calls:
  assumes "build_tree (Suc fuel) os p prefix = Some (Inr lines)"
    and "listdir os p = Inr names"
    and "entries = filter visible (sort names)"
    and "i < length entries" and "isdir os (join os p (entries ! i))"
  shows "\<exists>s. build_tree fuel os (join os p (entries ! i))
               (prefix @ (if Suc i = length entries then seg_blank else seg_bar)) = Some (Inr s)"
proof -
  have "for_entries (build_tree fuel os) os p prefix entries (List.enumerate 0 entries) [] =
        Some (Inr lines)"
    using assms(1,2,3) by (simp add: Let_def)
  moreover have "(i, entries ! i) \<in> set (List.enumerate 0 entries)"
    using assms(4) by (simp add: in_set_enumerate)
  ultimately show ?thesis using assms(5) by (rule for_entries_calls)
qed

lemma build_tree_shape:
  assumes ok: "build_tree (Suc fuel) os p prefix = Some (Inr lines)"
    and ld: "listdir os p = Inr names"
    and en: "entries = filter visible (sort names)"
  obtains sub where
    "\<And>i. i < length entries \<Longrightarrow> isdir os (join os p (entries ! i)) \<Longrightarrow>
       build_tree fuel os (join os p (entries ! i))
         (prefix @ (if Suc i = length entries then seg_blank else seg_bar)) = Some (Inr (sub i))"
    and "lines = concat (map (\<lambda>i.
           (prefix @ (if Suc i = length entries then glyph_last else glyph_tee) @ entries ! i)
             # (if isdir os (join os p (entries ! i)) then sub i else [])) [0..<length entries])"
proof -
  define sub where "sub i =
     (case build_tree fuel os (join os p (entries ! i))
             (prefix @ (if Suc i = length entries then seg_blank else seg_bar)) of
        Some (Inr s) \<Rightarrow> s | _ \<Rightarrow> [])" for i
  have calls: "build_tree fuel os (join os p (entries ! i))
         (prefix @ (if Suc i = length entries then seg_blank else seg_bar)) = Some (Inr (sub i))"
    if "i < length entries" "isdir os (join os p (entries ! i))" for i
    using build_tree_calls [OF ok ld en that] by (auto simp: sub_def)
  have "build_tree (Suc fuel) os p prefix =
         Some (Inr (concat (map (\<lambda>i.
           (prefix @ (if Suc i = length entries then glyph_last else glyph_tee) @ entries ! i)
             # (if isdir os (join os p (entries ! i)) then sub i else [])) [0..<length entries])))"
    using ld en calls by (rule build_tree_blocks)
  with ok have "lines = concat (map (\<lambda>i.
           (prefix @ (if Suc i = length entries then glyph_last else glyph_tee) @ entries ! i)
             # (if isdir os (join os p (entries ! i)) then sub i else [])) [0..<length entries])"
    by simp
  with calls show ?thesis by (rule that)
qed

lemma concat_map_upt_split:
  assumes "i < n"
  shows "concat (map f [0..<n]) = concat (map f [0..<i]) @ f i @ concat (map f [Suc i..<n])"
proof -
  have "[0..<n] = [0..<i] @ i # [Suc i..<n]"
    using assms by (metis upt_conv_Cons upt_add_eq_append le0 le_add_diff_inverse less_imp_le add.left_neutral)
  then show ?thesis by simp
qed

section \<open>Where a line comes from, and where an entry goes\<close>

lemma build_tree_Inr_cases:
  assumes "build_tree (Suc fuel) os p prefix = Some (Inr lines)"
  obtains "listdir os p = Inl PermissionError" and "lines = []"
  | names where "listdir os p = Inr names"
proof (cases "listdir os p")
  case (Inl err)
  with assms have "err = PermissionError \<and> lines = []" by (cases err) simp_all
  with Inl that(1) show ?thesis by simp
next
  case (Inr names)
  then show ?thesis by (rule that(2))
qed

lemma descend_child:
  assumes "listdir os p = Inr names" and "e \<in> set names" and "visible e"
    and "isdir os (join os p e)"
  shows "descend os p (e # es) = descend os (join os p e) es"
  using assms by simp

lemma descend_visible:
  "descend os p es = Some q \<Longrightarrow> d \<in> set es \<Longrightarrow> visible d"
proof (induction es arbitrary: p)
  case Nil
  then show ?case by simp
next
  case (Cons e es)
  then show ?case
    by (auto split: sum.splits if_splits)
qed

lemma entries_member:
  "e \<in> set (filter visible (sort names)) \<longleftrightarrow> e \<in> set names \<and> visible e"
  by auto

lemma line_origin:
  assumes "build_tree fuel os path prefix = Some (Inr lines)" and "line \<in> set lines"
  shows "\<exists>es dir names e segs conn.
           descend os path es = Some dir \<and> listdir os dir = Inr names \<and> e \<in> set names
           \<and> visible e \<and> length segs = length es \<and> set segs \<subseteq> {seg_blank, seg_bar}
           \<and> conn \<in> {glyph_last, glyph_tee} \<and> line = prefix @ concat segs @ conn @ e"
  using assms
proof (induction fuel arbitrary: path prefix lines)
  case 0
  then show ?case by simp
next
  case (Suc fuel)
  from Suc.prems(1) show ?case
  proof (cases rule: build_tree_Inr_cases)
    case 1
    with Suc.prems(2) show ?thesis by simp
  next
    case (2 names)
    define entries where "entries = filter visible (sort names)"
    let ?conn = "\<lambda>i. if Suc i = length entries then glyph_last else glyph_tee"
    let ?seg = "\<lambda>i. if Suc i = length entries then seg_blank else seg_bar"
    obtain sub where
      calls: "\<And>i. i < length entries \<Longrightarrow> isdir os (join os path (entries ! i)) \<Longrightarrow>
         build_tree fuel os (join os path (entries ! i)) (prefix @ ?seg i) = Some (Inr (sub i))"
      and lines: "lines = concat (map (\<lambda>i. (prefix @ ?conn i @ entries ! i)
             # (if isdir os (join os path (entries ! i)) then sub i else [])) [0..<length entries])"
      using build_tree_shape [OF Suc.prems(1) 2 entries_def] by blast
    define block where "block i = (prefix @ ?conn i @ entries ! i)
             # (if isdir os (join os path (entries ! i)) then sub i else [])" for i
    have "lines = concat (map block [0..<length entries])"
      unfolding lines block_def ..
    with Suc.prems(2) obtain i where i: "i < length entries" and "line \<in> set (block i)"
      by auto
    then have mem: "line = prefix @ ?conn i @ entries ! i
                \<or> (isdir os (join os path (entries ! i)) \<and> line \<in> set (sub i))"
      by (cases "isdir os (join os path (entries ! i))") (simp_all add: block_def)
    have ei: "entries ! i \<in> set names" "visible (entries ! i)"
      using i nth_mem [OF i] by (auto simp: entries_def)
    from mem show ?thesis
    proof
      assume l: "line = prefix @ ?conn i @ entries ! i"
      have "descend os path [] = Some path" by simp
      moreover have "length ([]::str list) = length ([]::str list)" by simp
      moreover have "set ([]::str list) \<subseteq> {seg_blank, seg_bar}" by simp
      moreover have "?conn i \<in> {glyph_last, glyph_tee}" by simp
      moreover have "line = prefix @ concat [] @ ?conn i @ entries ! i" using l by simp
      ultimately show ?thesis using 2 ei by blast
    next
      assume a: "isdir os (join os path (entries ! i)) \<and> line \<in> set (sub i)"
      then have d: "isdir os (join os path (entries ! i))" and ls: "line \<in> set (sub i)"
        by blast+
      from Suc.IH [OF calls [OF i d] ls] obtain es dir names' e segs conn where
        r: "descend os (join os path (entries ! i)) es = Some dir" "listdir os dir = Inr names'"
           "e \<in> set names'" "visible e" "length segs = length es"
           "set segs \<subseteq> {seg_blank, seg_bar}" "conn \<in> {glyph_last, glyph_tee}"
           "line = (prefix @ ?seg i) @ concat segs @ conn @ e"
        by blast
      have "descend os path (entries ! i # es) = Some dir"
        using descend_child [OF 2 ei d] r(1) by simp
      moreover have "length (?seg i # segs) = length (entries ! i # es)" using r(5) by simp
      moreover have "set (?seg i # segs) \<subseteq> {seg_blank, seg_bar}" using r(6) by simp
      moreover have "line = prefix @ concat (?seg i # segs) @ conn @ e" using r(8) by simp
      ultimately show ?thesis using r(2,3,4,7) by blast
    qed
  qed
qed

lemma descend_Cons_Some:
  assumes "descend os p (e # es) = Some q"
  obtains names where "listdir os p = Inr names" and "e \<in> set names" and "visible e"
    and "isdir os (join os p e)" and "descend os (join os p e) es = Some q"
  using assms by (auto split: sum.splits if_splits)

lemma build_tree_split_at:
  assumes ok: "build_tree (Suc fuel) os path prefix = Some (Inr lines)"
    and ld: "listdir os path = Inr names" and e: "e \<in> set names" and v: "visible e"
  shows "\<exists>conn seg before sub after.
           conn \<in> {glyph_last, glyph_tee} \<and> seg \<in> {seg_blank, seg_bar}
           \<and> lines = before @ [prefix @ conn @ e] @ sub @ after
           \<and> (isdir os (join os path e) \<longrightarrow>
                 build_tree fuel os (join os path e) (prefix @ seg) = Some (Inr sub))
           \<and> (\<not> isdir os (join os path e) \<longrightarrow> sub = [])"
proof -
  define entries where "entries = filter visible (sort names)"
  let ?conn = "\<lambda>i. if Suc i = length entries then glyph_last else glyph_tee"
  let ?seg = "\<lambda>i. if Suc i = length entries then seg_blank else seg_bar"
  obtain sub where
    calls: "\<And>i. i < length entries \<Longrightarrow> isdir os (join os path (entries ! i)) \<Longrightarrow>
       build_tree fuel os (join os path (entries ! i)) (prefix @ ?seg i) = Some (Inr (sub i))"
    and lines: "lines = concat (map (\<lambda>i. (prefix @ ?conn i @ entries ! i)
           # (if isdir os (join os path (entries ! i)) then sub i else [])) [0..<length entries])"
    using build_tree_shape [OF ok ld entries_def] by blast
  define block where "block i = (prefix @ ?conn i @ entries ! i)
           # (if isdir os (join os path (entries ! i)) then sub i else [])" for i
  have l: "lines = concat (map block [0..<length entries])"
    unfolding lines block_def ..
  from e v have "e \<in> set entries" by (simp add: entries_def)
  then obtain i where i: "i < length entries" and ei: "entries ! i = e"
    by (auto simp: in_set_conv_nth)
  define s where "s = (if isdir os (join os path e) then sub i else [])"
  have "lines = concat (map block [0..<i]) @ block i @ concat (map block [Suc i..<length entries])"
    unfolding l using i by (rule concat_map_upt_split)
  then have "lines = concat (map block [0..<i]) @ [prefix @ ?conn i @ e] @ s
                @ concat (map block [Suc i..<length entries])"
    by (simp add: block_def ei s_def)
  moreover have "?conn i \<in> {glyph_last, glyph_tee}" by simp
  moreover have "?seg i \<in> {seg_blank, seg_bar}" by simp
  moreover have "isdir os (join os path e) \<longrightarrow>
                 build_tree fuel os (join os path e) (prefix @ ?seg i) = Some (Inr s)"
    using calls [OF i] by (simp add: ei s_def)
  moreover have "\<not> isdir os (join os path e) \<longrightarrow> s = []" by (simp add: s_def)
  ultimately show ?thesis by blast
qed

lemma entry_block:
  assumes "build_tree fuel os path prefix = Some (Inr lines)"
    and "descend os path es = Some dir"
    and "listdir os dir = Inr names" and "e \<in> set names" and "visible e"
  shows "\<exists>segs conn seg before sub after.
           length segs = length es \<and> set segs \<subseteq> {seg_blank, seg_bar}
           \<and> conn \<in> {glyph_last, glyph_tee} \<and> seg \<in> {seg_blank, seg_bar}
           \<and> lines = before @ [prefix @ concat segs @ conn @ e] @ sub @ after
           \<and> (isdir os (join os dir e) \<longrightarrow>
                 (\<exists>k. build_tree k os (join os dir e) (prefix @ concat segs @ seg) = Some (Inr sub)))
           \<and> (\<not> isdir os (join os dir e) \<longrightarrow> sub = [])"
  using assms(1,2)
proof (induction es arbitrary: path fuel prefix lines)
  case Nil
  then have dir: "dir = path" by simp
  from Nil.prems(1) obtain k where fuel: "fuel = Suc k" by (cases fuel) simp_all
  from build_tree_split_at [OF Nil.prems(1) [unfolded fuel] assms(3) [unfolded dir] assms(4,5)]
  obtain conn seg before sub after where
    r: "conn \<in> {glyph_last, glyph_tee}" "seg \<in> {seg_blank, seg_bar}"
       "lines = before @ [prefix @ conn @ e] @ sub @ after"
       "isdir os (join os path e) \<longrightarrow>
          build_tree k os (join os path e) (prefix @ seg) = Some (Inr sub)"
       "\<not> isdir os (join os path e) \<longrightarrow> sub = []"
    by blast
  have "length ([]::str list) = length ([]::str list)" by simp
  moreover have "set ([]::str list) \<subseteq> {seg_blank, seg_bar}" by simp
  moreover have "lines = before @ [prefix @ concat [] @ conn @ e] @ sub @ after"
    using r(3) by simp
  moreover have "isdir os (join os dir e) \<longrightarrow>
       (\<exists>k. build_tree k os (join os dir e) (prefix @ concat [] @ seg) = Some (Inr sub))"
    using r(4) dir by auto
  moreover have "\<not> isdir os (join os dir e) \<longrightarrow> sub = []" using r(5) dir by simp
  ultimately show ?case using r(1,2) by blast
next
  case (Cons e0 es)
  from Cons.prems(2) obtain names0 where
    ld0: "listdir os path = Inr names0" and e0: "e0 \<in> set names0" and v0: "visible e0"
    and d0: "isdir os (join os path e0)" and rest: "descend os (join os path e0) es = Some dir"
    by (rule descend_Cons_Some)
  from Cons.prems(1) obtain k where fuel: "fuel = Suc k" by (cases fuel) simp_all
  from build_tree_split_at [OF Cons.prems(1) [unfolded fuel] ld0 e0 v0] d0
  obtain conn0 seg0 before0 sub0 after0 where
    r0: "seg0 \<in> {seg_blank, seg_bar}"
        "lines = before0 @ [prefix @ conn0 @ e0] @ sub0 @ after0"
        "build_tree k os (join os path e0) (prefix @ seg0) = Some (Inr sub0)"
    by blast
  from Cons.IH [OF r0(3) rest] obtain segs conn seg before sub after where
    r: "length segs = length es" "set segs \<subseteq> {seg_blank, seg_bar}"
       "conn \<in> {glyph_last, glyph_tee}" "seg \<in> {seg_blank, seg_bar}"
       "sub0 = before @ [(prefix @ seg0) @ concat segs @ conn @ e] @ sub @ after"
       "isdir os (join os dir e) \<longrightarrow>
          (\<exists>k. build_tree k os (join os dir e) ((prefix @ seg0) @ concat segs @ seg) = Some (Inr sub))"
       "\<not> isdir os (join os dir e) \<longrightarrow> sub = []"
    by blast
  have "length (seg0 # segs) = length (e0 # es)" using r(1) by simp
  moreover have "set (seg0 # segs) \<subseteq> {seg_blank, seg_bar}" using r(2) r0(1) by simp
  moreover have "lines = (before0 @ [prefix @ conn0 @ e0] @ before)
                   @ [prefix @ concat (seg0 # segs) @ conn @ e] @ sub @ (after @ after0)"
    using r0(2) r(5) by simp
  moreover have "isdir os (join os dir e) \<longrightarrow>
       (\<exists>k. build_tree k os (join os dir e) (prefix @ concat (seg0 # segs) @ seg) = Some (Inr sub))"
    using r(6) by simp
  ultimately show ?case using r(3,4,7) by blast
qed

lemma concat_segments_length:
  "set segs \<subseteq> {seg_blank, seg_bar} \<Longrightarrow> length (concat segs) = 4 * length segs"
  by (induction segs) (auto simp: seg_blank_def seg_bar_def)

lemma segment_connector_distinct:
  assumes "s \<in> {seg_blank, seg_bar}" and "c \<in> {glyph_last, glyph_tee}"
  shows "s @ xs \<noteq> c @ ys"
  using assms by (auto simp: seg_blank_def seg_bar_def glyph_last_def glyph_tee_def)

lemma segment_cancel:
  assumes "s \<in> {seg_blank, seg_bar}" and "s' \<in> {seg_blank, seg_bar}" and "s @ xs = s' @ ys"
  shows "s = s' \<and> xs = ys"
  using assms by (auto simp: seg_blank_def seg_bar_def)

lemma connector_cancel:
  assumes "c \<in> {glyph_last, glyph_tee}" and "c' \<in> {glyph_last, glyph_tee}" and "c @ xs = c' @ ys"
  shows "c = c' \<and> xs = ys"
  using assms by (auto simp: glyph_last_def glyph_tee_def)

lemma line_parse_unique:
  assumes "set segs \<subseteq> {seg_blank, seg_bar}" and "set segs' \<subseteq> {seg_blank, seg_bar}"
    and "conn \<in> {glyph_last, glyph_tee}" and "conn' \<in> {glyph_last, glyph_tee}"
    and "concat segs @ conn @ e = concat segs' @ conn' @ e'"
  shows "segs = segs' \<and> conn = conn' \<and> e = e'"
  using assms(1,2,5)
proof (induction segs arbitrary: segs')
  case Nil
  show ?case
  proof (cases segs')
    case Nil
    with Nil.prems(3) have "conn @ e = conn' @ e'" by simp
    with connector_cancel [OF assms(3,4)] Nil show ?thesis by simp
  next
    case (Cons s' rest')
    with Nil.prems(2) have "s' \<in> {seg_blank, seg_bar}" by simp
    from segment_connector_distinct [OF this assms(3)]
    have "s' @ (concat rest' @ conn' @ e') \<noteq> conn @ e" .
    with Nil.prems(3) Cons show ?thesis by simp
  qed
next
  case (Cons s rest)
  from Cons.prems(1) have s: "s \<in> {seg_blank, seg_bar}" and r: "set rest \<subseteq> {seg_blank, seg_bar}"
    by simp_all
  show ?case
  proof (cases segs')
    case Nil
    from segment_connector_distinct [OF s assms(4)]
    have "s @ (concat rest @ conn @ e) \<noteq> conn' @ e'" .
    with Cons.prems(3) Nil show ?thesis by simp
  next
    case (Cons s' rest')
    with Cons.prems(2) have s': "s' \<in> {seg_blank, seg_bar}"
      and r': "set rest' \<subseteq> {seg_blank, seg_bar}"
      by simp_all
    from Cons.prems(3) Cons have "s @ (concat rest @ conn @ e) = s' @ (concat rest' @ conn' @ e')"
      by simp
    with segment_cancel [OF s s'] have eq: "s = s'"
      and rest: "concat rest @ conn @ e = concat rest' @ conn' @ e'"
      by blast+
    from Cons.IH [OF r r' rest] eq Cons show ?thesis by simp
  qed
qed

section \<open>The order of a listing, and the nesting allowed\<close>

lemma sort_mset_cong: "mset xs = mset ys \<Longrightarrow> sort xs = sort ys"
  by (rule properties_for_sort) simp_all

lemma for_entries_agree:
  assumes "join os' = join os"
    and "\<And>e. e \<in> snd ` set ies \<Longrightarrow> isdir os' (join os p e) = isdir os (join os p e)"
    and "\<And>e pre. e \<in> snd ` set ies \<Longrightarrow> isdir os (join os p e) \<Longrightarrow>
           rec' (join os p e) pre = rec (join os p e) pre"
  shows "for_entries rec' os' p prefix entries ies acc =
         for_entries rec os p prefix entries ies acc"
  using assms(2,3)
proof (induction ies arbitrary: acc)
  case Nil
  show ?case by simp
next
  case (Cons ie ies)
  obtain i e where ie: "ie = (i, e)" by (cases ie)
  have d: "isdir os' (join os p e) = isdir os (join os p e)"
    by (rule Cons.prems(1)) (simp add: ie)
  have r: "isdir os (join os p e) \<Longrightarrow> rec' (join os p e) pre = rec (join os p e) pre" for pre
    by (rule Cons.prems(2)) (simp_all add: ie)
  have rest: "for_entries rec' os' p prefix entries ies acc' =
              for_entries rec os p prefix entries ies acc'" for acc'
  proof (rule Cons.IH)
    fix e'
    assume "e' \<in> snd ` set ies"
    then have "e' \<in> snd ` set (ie # ies)" by auto
    then show "isdir os' (join os p e') = isdir os (join os p e')" by (rule Cons.prems(1))
  next
    fix e' pre
    assume "e' \<in> snd ` set ies" and d': "isdir os (join os p e')"
    then have "e' \<in> snd ` set (ie # ies)" by auto
    then show "rec' (join os p e') pre = rec (join os p e') pre" using d' by (rule Cons.prems(2))
  qed
  show ?case
    by (cases "isdir os (join os p e)")
       (simp_all add: ie Let_def assms(1) d r rest split: option.splits sum.splits)
qed

lemma snd_set_enumerate: "snd ` set (List.enumerate 0 xs) = set xs"
proof (intro equalityI subsetI)
  fix x
  assume "x \<in> snd ` set (List.enumerate 0 xs)"
  then obtain i where "(i, x) \<in> set (List.enumerate 0 xs)" by auto
  then show "x \<in> set xs" by (auto simp: in_set_enumerate)
next
  fix x
  assume "x \<in> set xs"
  then obtain i where "i < length xs" "xs ! i = x" by (auto simp: in_set_conv_nth)
  then have "(i, x) \<in> set (List.enumerate 0 xs)" by (simp add: in_set_enumerate)
  then show "x \<in> snd ` set (List.enumerate 0 xs)" by force
qed

lemma build_tree_agree:
  assumes "\<forall>es dir. descend os path es = Some dir \<longrightarrow>
             rel_sum (=) (\<lambda>a b. mset a = mset b) (listdir os dir) (listdir os' dir)
             \<and> (\<forall>names e. listdir os dir = Inr names \<and> e \<in> set names \<and> visible e \<longrightarrow>
                    isdir os' (join os dir e) = isdir os (join os dir e))"
    and "join os' = join os"
  shows "build_tree fuel os' path prefix = build_tree fuel os path prefix"
  using assms(1)
proof (induction fuel arbitrary: path prefix)
  case 0
  show ?case by simp
next
  case (Suc fuel)
  have here: "descend os path [] = Some path" by simp
  with Suc.prems have
    ls: "rel_sum (=) (\<lambda>a b. mset a = mset b) (listdir os path) (listdir os' path)"
    and ds: "\<And>names e. listdir os path = Inr names \<Longrightarrow> e \<in> set names \<Longrightarrow> visible e \<Longrightarrow>
               isdir os' (join os path e) = isdir os (join os path e)"
    by blast+
  show ?case
  proof (cases "listdir os path")
    case (Inl err)
    with ls have "listdir os' path = Inl err" by (cases "listdir os' path") simp_all
    with Inl show ?thesis by simp
  next
    case (Inr names)
    with ls obtain names' where Inr': "listdir os' path = Inr names'"
      and ms: "mset names = mset names'"
      by (cases "listdir os' path") simp_all
    define entries where "entries = filter visible (sort names)"
    have same: "filter visible (sort names') = entries"
      using sort_mset_cong [OF ms] by (simp add: entries_def)
    have "for_entries (build_tree fuel os') os' path prefix entries (List.enumerate 0 entries) [] =
          for_entries (build_tree fuel os) os path prefix entries (List.enumerate 0 entries) []"
    proof (rule for_entries_agree [OF assms(2)])
      fix e
      assume "e \<in> snd ` set (List.enumerate 0 entries)"
      then have "e \<in> set entries" by (simp add: snd_set_enumerate)
      then have e: "e \<in> set names" "visible e" by (simp_all add: entries_def)
      then show "isdir os' (join os path e) = isdir os (join os path e)"
        using ds [OF Inr] by simp
    next
      fix e pre
      assume "e \<in> snd ` set (List.enumerate 0 entries)" and d: "isdir os (join os path e)"
      then have "e \<in> set entries" by (simp add: snd_set_enumerate)
      then have e: "e \<in> set names" "visible e" by (simp_all add: entries_def)
      show "build_tree fuel os' (join os path e) pre = build_tree fuel os (join os path e) pre"
      proof (rule Suc.IH, intro allI impI)
        fix es dir
        assume "descend os (join os path e) es = Some dir"
        then have "descend os path (e # es) = Some dir"
          using descend_child [OF Inr e d] by simp
        with Suc.prems show "rel_sum (=) (\<lambda>a b. mset a = mset b) (listdir os dir) (listdir os' dir)
             \<and> (\<forall>names e. listdir os dir = Inr names \<and> e \<in> set names \<and> visible e \<longrightarrow>
                    isdir os' (join os dir e) = isdir os (join os dir e))"
          by blast
      qed
    qed
    then show ?thesis using Inr Inr' same by (simp add: Let_def entries_def)
  qed
qed

lemma for_entries_mono:
  assumes "\<And>q pre r. rec q pre = Some r \<Longrightarrow> rec' q pre = Some r"
    and "for_entries rec os p prefix entries ies acc = Some r"
  shows "for_entries rec' os p prefix entries ies acc = Some r"
  using assms(2)
proof (induction ies arbitrary: acc)
  case Nil
  then show ?case by simp
next
  case (Cons ie ies)
  obtain i e where ie: "ie = (i, e)" by (cases ie)
  show ?case
  proof (cases "isdir os (join os p e)")
    case False
    with Cons.prems have "for_entries rec os p prefix entries ies
        (acc @ [prefix @ (if Suc i = length entries then glyph_last else glyph_tee) @ e]) = Some r"
      by (simp add: ie Let_def is_last_iff)
    from Cons.IH [OF this] False show ?thesis by (simp add: ie Let_def is_last_iff)
  next
    case True
    let ?call = "rec (join os p e) (prefix @ (if Suc i = length entries then seg_blank else seg_bar))"
    show ?thesis
    proof (cases ?call)
      case None
      with Cons.prems True show ?thesis by (simp add: ie Let_def is_last_iff)
    next
      case (Some res)
      then have call': "rec' (join os p e)
          (prefix @ (if Suc i = length entries then seg_blank else seg_bar)) = Some res"
        by (rule assms(1))
      show ?thesis
      proof (cases res)
        case (Inl err)
        with Cons.prems True Some call' show ?thesis by (auto simp: ie Let_def is_last_iff)
      next
        case (Inr sub)
        with Cons.prems True Some have "for_entries rec os p prefix entries ies
            ((acc @ [prefix @ (if Suc i = length entries then glyph_last else glyph_tee) @ e]) @ sub)
            = Some r"
          by (simp add: ie Let_def is_last_iff)
        from Cons.IH [OF this] True call' Inr show ?thesis
          by (simp add: ie Let_def is_last_iff)
      qed
    qed
  qed
qed

lemma build_tree_Inr:
  "listdir os p = Inr names \<Longrightarrow>
   build_tree (Suc fuel) os p pre =
   for_entries (build_tree fuel os) os p pre (filter visible (sort names))
     (List.enumerate 0 (filter visible (sort names))) []"
  by (simp add: Let_def)

lemma build_tree_fuel_Suc:
  "build_tree fuel os p pre = Some r \<Longrightarrow> build_tree (Suc fuel) os p pre = Some r"
proof (induction fuel arbitrary: p pre r)
  case 0
  then show ?case by simp
next
  case (Suc fuel)
  show ?case
  proof (cases "listdir os p")
    case (Inl err)
    with Suc.prems show ?thesis by (cases err) auto
  next
    case (Inr names)
    with Suc.prems have "for_entries (build_tree fuel os) os p pre (filter visible (sort names))
        (List.enumerate 0 (filter visible (sort names))) [] = Some r"
      by (simp add: Let_def)
    then have "for_entries (build_tree (Suc fuel) os) os p pre (filter visible (sort names))
        (List.enumerate 0 (filter visible (sort names))) [] = Some r"
      by (rule for_entries_mono [rotated]) (rule Suc.IH)
    then show ?thesis by (simp only: build_tree_Inr [OF Inr])
  qed
qed

lemma build_tree_fuel_mono:
  assumes "build_tree fuel os p pre = Some r" and "fuel \<le> fuel'"
  shows "build_tree fuel' os p pre = Some r"
  using assms(2,1)
proof (induction rule: dec_induct)
  case base
  then show ?case .
next
  case (step n)
  then show ?case by (simp only: build_tree_fuel_Suc)
qed

section \<open>Finite directory trees\<close>

lemma height_child:
  assumes "(n, c) \<in> set cs"
  shows "height c < height (Dir cs)"
proof -
  have "height c \<in> set (0 # map (\<lambda>(name, child). height child) cs)"
    using assms by force
  then have "height c \<le> Max (set (0 # map (\<lambda>(name, child). height child) cs))"
    by (rule Max_ge [OF finite_set])
  then show ?thesis by simp
qed

lemma tree_at_child:
  assumes "tree_at os p (Dir cs)" and "(n, c) \<in> set cs"
  shows "isdir os (join os p n) = is_dir c" and "tree_at os (join os p n) c"
  using assms by auto

lemma tree_at_listdir:
  assumes "tree_at os p (Dir cs)"
  obtains names where "listdir os p = Inr names" and "mset names = mset (map fst cs)"
  using assms by (cases "listdir os p") auto

lemma entries_child:
  assumes "mset names = mset (map fst cs)" and "e \<in> set (filter visible (sort names))"
  obtains c where "(e, c) \<in> set cs"
proof -
  from assms(2) have "e \<in> set names" by simp
  then have "e \<in> set (map fst cs)" using assms(1) by (metis set_mset_mset)
  then show ?thesis using that by auto
qed

lemma is_dir_count: "\<not> is_dir c \<Longrightarrow> count c = 0"
  by (cases c) simp_all

lemma entries_all_visible:
  assumes "mset names = mset (map fst cs)" and "all_visible (Dir cs)"
  shows "mset (filter visible (sort names)) = mset (map fst cs)"
proof -
  have "\<forall>n \<in> set (map fst cs). visible n" using assms(2) by auto
  then have "\<forall>n \<in> set names. visible n" using assms(1) by (metis set_mset_mset)
  then have "filter visible (sort names) = sort names" by simp
  then show ?thesis using assms(1) by simp
qed

lemma length_blocks:
  "length (concat (map (\<lambda>i. f i # g i) [0..<n])) = (\<Sum>i\<leftarrow>[0..<n]. Suc (length (g i)))"
  by (simp add: length_concat comp_def)

lemma sum_list_entries:
  assumes "mset entries = mset (map fst cs)"
    and "\<And>n c. (n, c) \<in> set cs \<Longrightarrow> k n = count c"
  shows "(\<Sum>i\<leftarrow>[0..<length entries]. Suc (k (entries ! i))) = count (Dir cs)"
proof -
  have "(\<Sum>i\<leftarrow>[0..<length entries]. Suc (k (entries ! i))) = (\<Sum>e\<leftarrow>entries. Suc (k e))"
  proof -
    have "map (\<lambda>i. Suc (k (entries ! i))) [0..<length entries] = map (\<lambda>e. Suc (k e)) entries"
      by (rule nth_equalityI) simp_all
    then show ?thesis by (simp only:)
  qed
  also have "\<dots> = (\<Sum>e\<leftarrow>map fst cs. Suc (k e))"
  proof -
    have "mset (map (\<lambda>e. Suc (k e)) entries) = mset (map (\<lambda>e. Suc (k e)) (map fst cs))"
      by (simp only: mset_map assms(1))
    then show ?thesis by (metis sum_mset_sum_list)
  qed
  also have "\<dots> = (\<Sum>x\<leftarrow>cs. Suc (k (fst x)))"
    by (simp add: comp_def)
  also have "\<dots> = (\<Sum>x\<leftarrow>cs. case x of (name, child) \<Rightarrow> Suc (count child))"
    by (rule arg_cong [where f = sum_list], rule map_cong) (auto simp: assms(2))
  finally show ?thesis by simp
qed

lemma tree_result:
  assumes "tree_at os p t" and "height t < fuel"
  shows "\<exists>r. build_tree fuel os p prefix = Some r
           \<and> (is_dir t \<longrightarrow> (\<exists>lines. r = Inr lines
                 \<and> (all_visible t \<longrightarrow> length lines = count t)))"
  using assms
proof (induction fuel arbitrary: t p prefix)
  case 0
  then show ?case by simp
next
  case (Suc fuel)
  show ?case
  proof (cases t)
    case File
    with Suc.prems show ?thesis by simp
  next
    case Locked
    with Suc.prems show ?thesis by simp
  next
    case (Dir cs)
    from Suc.prems(1) have at: "tree_at os p (Dir cs)" by (simp only: Dir)
    from at obtain names where ld: "listdir os p = Inr names"
      and ms: "mset names = mset (map fst cs)"
      by (rule tree_at_listdir)
    define entries where "entries = filter visible (sort names)"
    define sub where "sub i =
       (case build_tree fuel os (join os p (entries ! i))
               (prefix @ (if Suc i = length entries then seg_blank else seg_bar)) of
          Some (Inr s) \<Rightarrow> s | _ \<Rightarrow> [])" for i
    have child: "\<exists>c. (entries ! i, c) \<in> set cs" if "i < length entries" for i
    proof -
      from that have "entries ! i \<in> set (filter visible (sort names))"
        by (simp only: entries_def [symmetric] nth_mem)
      with ms obtain c where "(entries ! i, c) \<in> set cs" by (rule entries_child)
      then show ?thesis ..
    qed
    have sub_ih: "\<exists>lines. build_tree fuel os (join os p n) pre = Some (Inr lines)
                    \<and> (all_visible c \<longrightarrow> length lines = count c)"
      if "(n, c) \<in> set cs" and "is_dir c" for n c pre
    proof -
      have "tree_at os (join os p n) c" using at that(1) by (rule tree_at_child)
      moreover have "height c < fuel"
        using height_child [OF that(1)] Suc.prems(2) unfolding Dir by arith
      ultimately have "\<exists>r. build_tree fuel os (join os p n) pre = Some r
           \<and> (is_dir c \<longrightarrow> (\<exists>lines. r = Inr lines
                 \<and> (all_visible c \<longrightarrow> length lines = count c)))"
        by (rule Suc.IH)
      with that(2) show ?thesis by blast
    qed
    have calls: "build_tree fuel os (join os p (entries ! i))
         (prefix @ (if Suc i = length entries then seg_blank else seg_bar)) = Some (Inr (sub i))"
      if "i < length entries" and "isdir os (join os p (entries ! i))" for i
    proof -
      from child [OF that(1)] obtain c where c: "(entries ! i, c) \<in> set cs" ..
      with at that(2) have "is_dir c" by (simp only: tree_at_child(1) [OF at c])
      from sub_ih [OF c this] obtain lines where
        "build_tree fuel os (join os p (entries ! i))
           (prefix @ (if Suc i = length entries then seg_blank else seg_bar)) = Some (Inr lines)"
        by blast
      then show ?thesis by (simp add: sub_def)
    qed
    let ?lines = "concat (map (\<lambda>i.
           (prefix @ (if Suc i = length entries then glyph_last else glyph_tee) @ entries ! i)
             # (if isdir os (join os p (entries ! i)) then sub i else [])) [0..<length entries])"
    have res: "build_tree (Suc fuel) os p prefix = Some (Inr ?lines)"
      using ld entries_def calls by (rule build_tree_blocks)
    have "length ?lines = count (Dir cs)" if vis: "all_visible (Dir cs)"
    proof -
      define k where "k e =
         (if isdir os (join os p e)
          then (case build_tree fuel os (join os p e) [] of
                  Some (Inr s) \<Rightarrow> length s | _ \<Rightarrow> 0)
          else 0)" for e
      have k_count: "k n = count c" if nc: "(n, c) \<in> set cs" for n c
      proof (cases "is_dir c")
        case True
        from vis nc have "all_visible c" by auto
        with sub_ih [OF nc True, of "[]"] obtain lines where
          "build_tree fuel os (join os p n) [] = Some (Inr lines)" and "length lines = count c"
          by blast
        moreover have "isdir os (join os p n)" using True by (simp only: tree_at_child(1) [OF at nc])
        ultimately show ?thesis by (simp add: k_def)
      next
        case False
        then have "\<not> isdir os (join os p n)" using tree_at_child(1) [OF at nc] by simp
        with False show ?thesis by (simp add: k_def is_dir_count)
      qed
      have k_sub: "length (if isdir os (join os p (entries ! i)) then sub i else []) = k (entries ! i)"
        if i: "i < length entries" for i
      proof (cases "isdir os (join os p (entries ! i))")
        case False
        then show ?thesis by (simp add: k_def)
      next
        case True
        let ?pre = "prefix @ (if Suc i = length entries then seg_blank else seg_bar)"
        have "build_tree fuel os (join os p (entries ! i)) (?pre @ []) =
              map_lines ((@) ?pre) (build_tree fuel os (join os p (entries ! i)) [])"
          by (rule build_tree_prepend)
        then have "map_lines ((@) ?pre) (build_tree fuel os (join os p (entries ! i)) [])
                     = Some (Inr (sub i))"
          using calls [OF i True] by simp
        then obtain s where "build_tree fuel os (join os p (entries ! i)) [] = Some (Inr s)"
          and "sub i = map ((@) ?pre) s"
          by (auto simp: map_lines_def split: option.splits sum.splits)
        with True show ?thesis by (simp add: k_def)
      qed
      have "length ?lines =
            (\<Sum>i\<leftarrow>[0..<length entries].
               Suc (length (if isdir os (join os p (entries ! i)) then sub i else [])))"
        by (rule length_blocks)
      also have "\<dots> = (\<Sum>i\<leftarrow>[0..<length entries]. Suc (k (entries ! i)))"
        by (rule arg_cong [where f = sum_list], rule map_cong) (simp_all add: k_sub)
      also have "\<dots> = count (Dir cs)"
      proof (rule sum_list_entries)
        show "mset entries = mset (map fst cs)"
          unfolding entries_def using ms vis by (rule entries_all_visible)
      qed (rule k_count)
      finally show ?thesis .
    qed
    with res show ?thesis by (simp only: Dir) blast
  qed
qed

section \<open>The example file systems, evaluated\<close>

lemmas ev = lit_def startswith_def visible_def posix_join_def glyph_last_def glyph_tee_def
  seg_blank_def seg_bar_def Let_def

lemma example_entries:
  "filter visible (sort [lit ''z.txt'', lit ''sub'', lit ''a.txt'']) =
   [lit ''a.txt'', lit ''sub'', lit ''z.txt'']"
  by (simp add: ev)

lemma project_entries:
  "filter visible
     (sort [lit ''src'', lit ''.git'', lit ''node_modules'', lit ''locked'', lit ''README'']) =
   [lit ''README'', lit ''locked'', lit ''src'']"
  by (simp add: ev)

lemma abc_entries:
  "filter visible (sort [lit ''b'', lit ''a'', lit ''c'']) = [lit ''a'', lit ''b'', lit ''c'']"
  by (simp add: ev)

lemma example_tree:
  "build_tree (Suc (Suc 0)) example_os (lit ''root'') [] =
   Some (Inr [glyph_tee @ lit ''a.txt'', glyph_tee @ lit ''sub'',
              seg_bar @ glyph_last @ lit ''inner.txt'', glyph_last @ lit ''z.txt''])"
  by (simp add: example_os_def ev)

lemma project_tree:
  "build_tree (Suc (Suc (Suc 0))) project_os (lit ''proj'') [] =
   Some (Inr [glyph_tee @ lit ''README'', glyph_tee @ lit ''locked'', glyph_last @ lit ''src'',
              seg_blank @ glyph_last @ lit ''main.py''])"
  by (simp add: project_os_def ev)

lemma abc_tree:
  "build_tree (Suc 0) abc_os (lit ''d'') [] =
   Some (Inr [glyph_tee @ lit ''a'', glyph_tee @ lit ''b'', glyph_last @ lit ''c''])"
  by (simp add: abc_os_def ev)

section \<open>One line per surviving child, then its subtree\<close>

text \<open>
  Claim C1. When \<open>listdir\<close> answers \<open>names\<close>, \<open>entries\<close> is the sorted list of the names
  that pass the filter, and every recursive call on a child that is a directory returns
  (the call on the child at index \<open>i\<close> returning \<open>sub i\<close>), then \<open>build_tree(path, prefix)\<close>
  returns, for each \<open>(i, e)\<close> of \<open>enumerate(entries)\<close> in that order, the line
  \<open>prefix + connector + e\<close>, followed at once by \<open>sub i\<close> when \<open>e\<close> is a directory and by
  nothing otherwise. The connector is the corner glyph for the last index and the tee
  glyph for the others; the prefix of the recursive call is \<open>prefix\<close> extended by four
  spaces for the last index and by the bar segment for the others.
\<close>

theorem build_tree_emits:
  assumes "listdir os path = Inr names"
    and "entries = filter visible (sort names)"
    and "\<forall>(i, e) \<in> set (List.enumerate 0 entries). isdir os (join os path e) \<longrightarrow>
           build_tree fuel os (join os path e)
             (prefix @ (if Suc i = length entries then seg_blank else seg_bar)) = Some (Inr (sub i))"
  shows "build_tree (Suc fuel) os path prefix =
         Some (Inr (concat (map (\<lambda>(i, e).
           (prefix @ (if Suc i = length entries then glyph_last else glyph_tee) @ e)
             # (if isdir os (join os path e) then sub i else []))
           (List.enumerate 0 entries))))"
proof -
  have "for_entries (build_tree fuel os) os path prefix entries (List.enumerate 0 entries) [] =
        Some (Inr ([] @ concat (map (\<lambda>(i, e).
           (prefix @ (if Suc i = length entries then glyph_last else glyph_tee) @ e)
             # (if isdir os (join os path e) then sub i else [])) (List.enumerate 0 entries))))"
    using assms(3) by (intro for_entries_blocks) auto
  then show ?thesis using assms(1,2) by (simp add: Let_def)
qed

theorem build_tree_emits_witness:
  "listdir example_os (lit ''root'') = Inr [lit ''z.txt'', lit ''sub'', lit ''a.txt'']
   \<and> [lit ''a.txt'', lit ''sub'', lit ''z.txt''] =
       filter visible (sort [lit ''z.txt'', lit ''sub'', lit ''a.txt''])
   \<and> build_tree (Suc 0) example_os (lit ''root/sub'') seg_bar =
       Some (Inr [seg_bar @ glyph_last @ lit ''inner.txt''])
   \<and> build_tree (Suc (Suc 0)) example_os (lit ''root'') [] =
       Some (Inr [glyph_tee @ lit ''a.txt'', glyph_tee @ lit ''sub'',
                  seg_bar @ glyph_last @ lit ''inner.txt'', glyph_last @ lit ''z.txt''])"
proof -
  have h1: "listdir example_os (lit ''root'') = Inr [lit ''z.txt'', lit ''sub'', lit ''a.txt'']"
    by (simp add: example_os_def)
  have h2: "[lit ''a.txt'', lit ''sub'', lit ''z.txt''] =
       filter visible (sort [lit ''z.txt'', lit ''sub'', lit ''a.txt''])"
    by (rule example_entries [symmetric])
  have h3: "\<forall>(i, e) \<in> set (List.enumerate 0 [lit ''a.txt'', lit ''sub'', lit ''z.txt'']).
         isdir example_os (join example_os (lit ''root'') e) \<longrightarrow>
         build_tree (Suc 0) example_os (join example_os (lit ''root'') e)
           ([] @ (if Suc i = length [lit ''a.txt'', lit ''sub'', lit ''z.txt''] then seg_blank else seg_bar))
           = Some (Inr [seg_bar @ glyph_last @ lit ''inner.txt''])"
    by (simp add: example_os_def ev)
  have "build_tree (Suc (Suc 0)) example_os (lit ''root'') [] =
       Some (Inr [glyph_tee @ lit ''a.txt'', glyph_tee @ lit ''sub'',
                  seg_bar @ glyph_last @ lit ''inner.txt'', glyph_last @ lit ''z.txt''])"
    using build_tree_emits [where sub = "\<lambda>_. [seg_bar @ glyph_last @ lit ''inner.txt'']", OF h1 h2 h3]
    by (simp add: example_os_def ev)
  moreover have "build_tree (Suc 0) example_os (lit ''root/sub'') seg_bar =
       Some (Inr [seg_bar @ glyph_last @ lit ''inner.txt''])"
    by (simp add: example_os_def ev)
  ultimately show ?thesis using h1 h2 by blast
qed

section \<open>Children are listed in sorted order\<close>

text \<open>
  Claim C3. The lines returned for a directory split into one block per listed child:
  the block of the child at index \<open>i\<close> starts with the line of \<open>entries ! i\<close>, and
  \<open>entries\<close>, the names that pass the filter, is sorted in the lexicographic order of
  the code points. The witness is the directory holding \<open>b\<close>, \<open>a\<close> and \<open>c\<close>, listed as
  \<open>a\<close>, \<open>b\<close>, \<open>c\<close>.
\<close>

theorem children_sorted:
  assumes "build_tree (Suc fuel) os path prefix = Some (Inr lines)"
    and "listdir os path = Inr names"
  shows "\<exists>entries blocks. sorted entries \<and> mset entries = filter_mset visible (mset names)
           \<and> length blocks = length entries \<and> lines = concat blocks
           \<and> (\<forall>i<length entries. \<exists>children. blocks ! i =
                 (prefix @ (if Suc i = length entries then glyph_last else glyph_tee) @ entries ! i)
                   # children)"
proof -
  define entries where "entries = filter visible (sort names)"
  obtain sub where lines: "lines = concat (map (\<lambda>i.
           (prefix @ (if Suc i = length entries then glyph_last else glyph_tee) @ entries ! i)
             # (if isdir os (join os path (entries ! i)) then sub i else [])) [0..<length entries])"
    using build_tree_shape [OF assms entries_def] by blast
  define blocks where "blocks = map (\<lambda>i.
           (prefix @ (if Suc i = length entries then glyph_last else glyph_tee) @ entries ! i)
             # (if isdir os (join os path (entries ! i)) then sub i else [])) [0..<length entries]"
  have "sorted entries" by (simp add: entries_def sorted_wrt_filter)
  moreover have "mset entries = filter_mset visible (mset names)"
    by (simp add: entries_def)
  moreover have "length blocks = length entries" by (simp add: blocks_def)
  moreover have "lines = concat blocks" by (simp add: lines blocks_def)
  moreover have "\<forall>i<length entries. \<exists>children. blocks ! i =
                 (prefix @ (if Suc i = length entries then glyph_last else glyph_tee) @ entries ! i)
                   # children"
    by (simp add: blocks_def)
  ultimately show ?thesis by blast
qed

theorem children_sorted_witness:
  "build_tree (Suc 0) abc_os (lit ''d'') [] =
     Some (Inr [glyph_tee @ lit ''a'', glyph_tee @ lit ''b'', glyph_last @ lit ''c''])
   \<and> listdir abc_os (lit ''d'') = Inr [lit ''b'', lit ''a'', lit ''c'']
   \<and> (\<exists>entries blocks. sorted entries
         \<and> mset entries = filter_mset visible (mset [lit ''b'', lit ''a'', lit ''c''])
         \<and> length blocks = length entries
         \<and> [glyph_tee @ lit ''a'', glyph_tee @ lit ''b'', glyph_last @ lit ''c''] = concat blocks)"
proof -
  have h1: "build_tree (Suc 0) abc_os (lit ''d'') [] =
     Some (Inr [glyph_tee @ lit ''a'', glyph_tee @ lit ''b'', glyph_last @ lit ''c''])"
    by (rule abc_tree)
  have h2: "listdir abc_os (lit ''d'') = Inr [lit ''b'', lit ''a'', lit ''c'']"
    by (simp add: abc_os_def)
  from children_sorted [OF h1 h2] h1 h2 show ?thesis by blast
qed

section \<open>A directory that may not be listed\<close>

text \<open>
  Claim C4. A \<open>PermissionError\<close> of \<open>listdir\<close> makes \<open>build_tree\<close> return the empty
  list; any other exception of \<open>listdir\<close> leaves \<open>build_tree\<close> as that exception; and a
  child directory whose listing fails with \<open>PermissionError\<close> still has its line in the
  lines of its parent, its block being that line alone.
\<close>

theorem permission_error_absorbed:
  "(listdir os locked = Inl PermissionError \<longrightarrow>
      build_tree (Suc fuel) os locked prefix = Some (Inr []))
   \<and> (listdir os missing = Inl e \<and> e \<noteq> PermissionError \<longrightarrow>
      build_tree (Suc fuel) os missing prefix = Some (Inl e))
   \<and> (listdir os parent = Inr names \<and> entries = filter visible (sort names)
      \<and> i < length entries \<and> isdir os (join os parent (entries ! i))
      \<and> listdir os (join os parent (entries ! i)) = Inl PermissionError
      \<and> build_tree (Suc (Suc fuel)) os parent prefix = Some (Inr lines) \<longrightarrow>
      (\<exists>blocks. lines = concat blocks \<and> length blocks = length entries
         \<and> (\<forall>j<length entries. \<exists>children. blocks ! j =
               (prefix @ (if Suc j = length entries then glyph_last else glyph_tee) @ entries ! j)
                 # children)
         \<and> blocks ! i = [prefix @ (if Suc i = length entries then glyph_last else glyph_tee)
                                   @ entries ! i]))"
proof (intro conjI impI)
  assume "listdir os locked = Inl PermissionError"
  then show "build_tree (Suc fuel) os locked prefix = Some (Inr [])" by simp
next
  assume "listdir os missing = Inl e \<and> e \<noteq> PermissionError"
  then show "build_tree (Suc fuel) os missing prefix = Some (Inl e)" by (cases e) simp_all
next
  assume a: "listdir os parent = Inr names \<and> entries = filter visible (sort names)
      \<and> i < length entries \<and> isdir os (join os parent (entries ! i))
      \<and> listdir os (join os parent (entries ! i)) = Inl PermissionError
      \<and> build_tree (Suc (Suc fuel)) os parent prefix = Some (Inr lines)"
  then have ld: "listdir os parent = Inr names" and en: "entries = filter visible (sort names)"
    and i: "i < length entries" and d: "isdir os (join os parent (entries ! i))"
    and pe: "listdir os (join os parent (entries ! i)) = Inl PermissionError"
    and ok: "build_tree (Suc (Suc fuel)) os parent prefix = Some (Inr lines)"
    by blast+
  obtain sub where
    calls: "\<And>j. j < length entries \<Longrightarrow> isdir os (join os parent (entries ! j)) \<Longrightarrow>
       build_tree (Suc fuel) os (join os parent (entries ! j))
         (prefix @ (if Suc j = length entries then seg_blank else seg_bar)) = Some (Inr (sub j))"
    and lines: "lines = concat (map (\<lambda>j.
           (prefix @ (if Suc j = length entries then glyph_last else glyph_tee) @ entries ! j)
             # (if isdir os (join os parent (entries ! j)) then sub j else [])) [0..<length entries])"
    using build_tree_shape [OF ok ld en] by blast
  define blocks where "blocks = map (\<lambda>j.
           (prefix @ (if Suc j = length entries then glyph_last else glyph_tee) @ entries ! j)
             # (if isdir os (join os parent (entries ! j)) then sub j else [])) [0..<length entries]"
  have "sub i = []" using calls [OF i d] pe by simp
  then have "blocks ! i = [prefix @ (if Suc i = length entries then glyph_last else glyph_tee)
                                   @ entries ! i]"
    using i d by (simp add: blocks_def)
  moreover have "length blocks = length entries" by (simp add: blocks_def)
  moreover have "lines = concat blocks" by (simp add: lines blocks_def)
  moreover have "\<forall>j<length entries. \<exists>children. blocks ! j =
                 (prefix @ (if Suc j = length entries then glyph_last else glyph_tee) @ entries ! j)
                   # children"
    by (simp add: blocks_def)
  ultimately show "\<exists>blocks. lines = concat blocks \<and> length blocks = length entries
         \<and> (\<forall>j<length entries. \<exists>children. blocks ! j =
               (prefix @ (if Suc j = length entries then glyph_last else glyph_tee) @ entries ! j)
                 # children)
         \<and> blocks ! i = [prefix @ (if Suc i = length entries then glyph_last else glyph_tee)
                                   @ entries ! i]"
    by blast
qed

theorem permission_error_absorbed_witness:
  "listdir project_os (lit ''proj/locked'') = Inl PermissionError
   \<and> build_tree (Suc (Suc 0)) project_os (lit ''proj/locked'') [] = Some (Inr [])
   \<and> listdir project_os (lit ''proj/missing'') = Inl FileNotFoundError
   \<and> FileNotFoundError \<noteq> PermissionError
   \<and> build_tree (Suc (Suc 0)) project_os (lit ''proj/missing'') [] = Some (Inl FileNotFoundError)
   \<and> listdir project_os (lit ''proj'') =
       Inr [lit ''src'', lit ''.git'', lit ''node_modules'', lit ''locked'', lit ''README'']
   \<and> [lit ''README'', lit ''locked'', lit ''src''] = filter visible
       (sort [lit ''src'', lit ''.git'', lit ''node_modules'', lit ''locked'', lit ''README''])
   \<and> Suc 0 < length [lit ''README'', lit ''locked'', lit ''src'']
   \<and> isdir project_os (join project_os (lit ''proj'') ([lit ''README'', lit ''locked'', lit ''src''] ! Suc 0))
   \<and> listdir project_os (join project_os (lit ''proj'') ([lit ''README'', lit ''locked'', lit ''src''] ! Suc 0))
       = Inl PermissionError
   \<and> build_tree (Suc (Suc (Suc 0))) project_os (lit ''proj'') [] =
       Some (Inr [glyph_tee @ lit ''README'', glyph_tee @ lit ''locked'', glyph_last @ lit ''src'',
                  seg_blank @ glyph_last @ lit ''main.py''])
   \<and> (\<exists>blocks. [glyph_tee @ lit ''README'', glyph_tee @ lit ''locked'', glyph_last @ lit ''src'',
                  seg_blank @ glyph_last @ lit ''main.py''] = concat blocks
         \<and> length blocks = length [lit ''README'', lit ''locked'', lit ''src'']
         \<and> blocks ! Suc 0 = [[] @ (if Suc (Suc 0) = length [lit ''README'', lit ''locked'', lit ''src'']
                                    then glyph_last else glyph_tee)
                                 @ [lit ''README'', lit ''locked'', lit ''src''] ! Suc 0])"
proof -
  have h1: "listdir project_os (lit ''proj/locked'') = Inl PermissionError"
    by (simp add: project_os_def ev)
  have h2: "listdir project_os (lit ''proj/missing'') = Inl FileNotFoundError
            \<and> FileNotFoundError \<noteq> PermissionError"
    by (simp add: project_os_def ev)
  have h3: "listdir project_os (lit ''proj'') =
       Inr [lit ''src'', lit ''.git'', lit ''node_modules'', lit ''locked'', lit ''README'']"
    by (simp add: project_os_def)
  have h4: "[lit ''README'', lit ''locked'', lit ''src''] = filter visible
       (sort [lit ''src'', lit ''.git'', lit ''node_modules'', lit ''locked'', lit ''README''])"
    by (rule project_entries [symmetric])
  have h5: "Suc 0 < length [lit ''README'', lit ''locked'', lit ''src'']" by simp
  have h6: "isdir project_os (join project_os (lit ''proj'') ([lit ''README'', lit ''locked'', lit ''src''] ! Suc 0))"
    by (simp add: project_os_def ev)
  have h7: "listdir project_os (join project_os (lit ''proj'') ([lit ''README'', lit ''locked'', lit ''src''] ! Suc 0))
       = Inl PermissionError"
    by (simp add: project_os_def ev)
  have h8: "build_tree (Suc (Suc (Suc 0))) project_os (lit ''proj'') [] =
       Some (Inr [glyph_tee @ lit ''README'', glyph_tee @ lit ''locked'', glyph_last @ lit ''src'',
                  seg_blank @ glyph_last @ lit ''main.py''])"
    by (rule project_tree)
  note inst = permission_error_absorbed [of project_os "lit ''proj/locked''" "Suc 0" "[]"
      "lit ''proj/missing''" FileNotFoundError "lit ''proj''"
      "[lit ''src'', lit ''.git'', lit ''node_modules'', lit ''locked'', lit ''README'']"
      "[lit ''README'', lit ''locked'', lit ''src'']" "Suc 0"
      "[glyph_tee @ lit ''README'', glyph_tee @ lit ''locked'', glyph_last @ lit ''src'',
        seg_blank @ glyph_last @ lit ''main.py'']"]
  from inst h1 h2 h3 h4 h5 h6 h7 h8 show ?thesis by blast
qed

section \<open>Hidden entries and node_modules are never listed\<close>

text \<open>
  Claim C2. Every line that \<open>build_tree\<close> returns is the given prefix, then one segment
  (four spaces or the bar segment) per level of descent, then a connector, then the name
  of an entry \<open>e\<close> that is listed in a directory \<open>dir\<close>, where \<open>e\<close> neither begins with a
  dot nor is \<open>node_modules\<close>, and \<open>dir\<close> is reached from the start path through names
  \<open>es\<close> that neither begin with a dot nor are \<open>node_modules\<close>. Moreover a line reads as
  prefix, segments, connector and name in one way only, so whatever name a returned line
  carries behind its connector neither begins with a dot nor is \<open>node_modules\<close>: no
  hidden entry, no \<open>node_modules\<close> and nothing below one of them is listed, at any depth.
  The start path itself is not an entry of the listing.
\<close>

theorem hidden_never_listed:
  assumes "build_tree fuel os path prefix = Some (Inr lines)" and "line \<in> set lines"
  shows "(\<exists>es dir names e segs conn.
            descend os path es = Some dir \<and> listdir os dir = Inr names \<and> e \<in> set names
            \<and> \<not> startswith e (lit ''.'') \<and> e \<noteq> lit ''node_modules''
            \<and> (\<forall>d \<in> set es. \<not> startswith d (lit ''.'') \<and> d \<noteq> lit ''node_modules'')
            \<and> length segs = length es \<and> set segs \<subseteq> {seg_blank, seg_bar}
            \<and> conn \<in> {glyph_last, glyph_tee} \<and> line = prefix @ concat segs @ conn @ e)
       \<and> (\<forall>segs conn e.
            set segs \<subseteq> {seg_blank, seg_bar} \<and> conn \<in> {glyph_last, glyph_tee}
            \<and> line = prefix @ concat segs @ conn @ e \<longrightarrow>
            \<not> startswith e (lit ''.'') \<and> e \<noteq> lit ''node_modules'')"
proof -
  from line_origin [OF assms] obtain es dir names e segs conn where
    r: "descend os path es = Some dir" "listdir os dir = Inr names" "e \<in> set names"
       "visible e" "length segs = length es" "set segs \<subseteq> {seg_blank, seg_bar}"
       "conn \<in> {glyph_last, glyph_tee}" "line = prefix @ concat segs @ conn @ e"
    by blast
  have es: "\<forall>d \<in> set es. \<not> startswith d (lit ''.'') \<and> d \<noteq> lit ''node_modules''"
    using descend_visible [OF r(1)] by (simp add: visible_def)
  have e: "\<not> startswith e (lit ''.'') \<and> e \<noteq> lit ''node_modules''"
    using r(4) by (simp add: visible_def)
  have first: "\<exists>es dir names e segs conn.
            descend os path es = Some dir \<and> listdir os dir = Inr names \<and> e \<in> set names
            \<and> \<not> startswith e (lit ''.'') \<and> e \<noteq> lit ''node_modules''
            \<and> (\<forall>d \<in> set es. \<not> startswith d (lit ''.'') \<and> d \<noteq> lit ''node_modules'')
            \<and> length segs = length es \<and> set segs \<subseteq> {seg_blank, seg_bar}
            \<and> conn \<in> {glyph_last, glyph_tee} \<and> line = prefix @ concat segs @ conn @ e"
    using r(1,2,3,5,6,7,8) es e by blast
  have second: "\<not> startswith e' (lit ''.'') \<and> e' \<noteq> lit ''node_modules''"
    if "set segs' \<subseteq> {seg_blank, seg_bar} \<and> conn' \<in> {glyph_last, glyph_tee}
        \<and> line = prefix @ concat segs' @ conn' @ e'" for segs' conn' e'
  proof -
    from that have s': "set segs' \<subseteq> {seg_blank, seg_bar}" and c': "conn' \<in> {glyph_last, glyph_tee}"
      and l': "line = prefix @ concat segs' @ conn' @ e'"
      by blast+
    from l' r(8) have "concat segs @ conn @ e = concat segs' @ conn' @ e'" by simp
    from line_parse_unique [OF r(6) s' r(7) c' this] have "e = e'" by simp
    with e show ?thesis by simp
  qed
  from first second show ?thesis by blast
qed

theorem hidden_never_listed_witness:
  "build_tree (Suc (Suc (Suc 0))) project_os (lit ''proj'') [] =
     Some (Inr [glyph_tee @ lit ''README'', glyph_tee @ lit ''locked'', glyph_last @ lit ''src'',
                seg_blank @ glyph_last @ lit ''main.py''])
   \<and> seg_blank @ glyph_last @ lit ''main.py'' \<in>
       set [glyph_tee @ lit ''README'', glyph_tee @ lit ''locked'', glyph_last @ lit ''src'',
            seg_blank @ glyph_last @ lit ''main.py'']
   \<and> (\<exists>es dir names e segs conn.
         descend project_os (lit ''proj'') es = Some dir \<and> listdir project_os dir = Inr names
         \<and> e \<in> set names \<and> \<not> startswith e (lit ''.'') \<and> e \<noteq> lit ''node_modules''
         \<and> length segs = length es \<and> set segs \<subseteq> {seg_blank, seg_bar}
         \<and> conn \<in> {glyph_last, glyph_tee}
         \<and> seg_blank @ glyph_last @ lit ''main.py'' = [] @ concat segs @ conn @ e)"
proof -
  have h1: "build_tree (Suc (Suc (Suc 0))) project_os (lit ''proj'') [] =
     Some (Inr [glyph_tee @ lit ''README'', glyph_tee @ lit ''locked'', glyph_last @ lit ''src'',
                seg_blank @ glyph_last @ lit ''main.py''])"
    by (rule project_tree)
  have h2: "seg_blank @ glyph_last @ lit ''main.py'' \<in>
       set [glyph_tee @ lit ''README'', glyph_tee @ lit ''locked'', glyph_last @ lit ''src'',
            seg_blank @ glyph_last @ lit ''main.py'']"
    by simp
  from hidden_never_listed [OF h1 h2] have "\<exists>es dir names e segs conn.
         descend project_os (lit ''proj'') es = Some dir \<and> listdir project_os dir = Inr names
         \<and> e \<in> set names \<and> \<not> startswith e (lit ''.'') \<and> e \<noteq> lit ''node_modules''
         \<and> length segs = length es \<and> set segs \<subseteq> {seg_blank, seg_bar}
         \<and> conn \<in> {glyph_last, glyph_tee}
         \<and> seg_blank @ glyph_last @ lit ''main.py'' = [] @ concat segs @ conn @ e"
    by (elim exE conjE) (intro exI conjI, assumption+)
  with h1 h2 show ?thesis by (intro conjI)
qed

section \<open>Contiguous subtrees, indentation by depth\<close>

text \<open>
  Claim C6. Every returned line is the line of an entry found at some recursion depth
  \<open>length es\<close>, and between the given prefix and the connector it carries that many
  segments of four characters. Every entry that passes the filter in a directory reached
  at depth \<open>length es\<close> has its line in the output, indented by that many segments, and
  the lines right after it, \<open>sub\<close>, are what \<open>build_tree\<close> returns for that entry when it
  is a directory and nothing when it is not: the subtree is one contiguous block behind
  the line of its directory.
\<close>

theorem blocks_and_indentation:
  assumes "build_tree fuel os path prefix = Some (Inr lines)"
  shows "(\<forall>line \<in> set lines. \<exists>es dir names e segs conn.
            descend os path es = Some dir \<and> listdir os dir = Inr names \<and> e \<in> set names
            \<and> visible e \<and> conn \<in> {glyph_last, glyph_tee} \<and> set segs \<subseteq> {seg_blank, seg_bar}
            \<and> length (concat segs) = 4 * length es
            \<and> line = prefix @ concat segs @ conn @ e)
       \<and> (\<forall>es dir names e.
            descend os path es = Some dir \<and> listdir os dir = Inr names \<and> e \<in> set names
            \<and> visible e \<longrightarrow>
            (\<exists>segs conn seg before sub after.
               set segs \<subseteq> {seg_blank, seg_bar} \<and> length (concat segs) = 4 * length es
               \<and> conn \<in> {glyph_last, glyph_tee} \<and> seg \<in> {seg_blank, seg_bar}
               \<and> lines = before @ [prefix @ concat segs @ conn @ e] @ sub @ after
               \<and> (isdir os (join os dir e) \<longrightarrow>
                     (\<exists>k. build_tree k os (join os dir e) (prefix @ concat segs @ seg)
                            = Some (Inr sub)))
               \<and> (\<not> isdir os (join os dir e) \<longrightarrow> sub = [])))"
proof (intro conjI ballI allI impI)
  fix line
  assume "line \<in> set lines"
  from line_origin [OF assms this] obtain es dir names e segs conn where
    r: "descend os path es = Some dir" "listdir os dir = Inr names" "e \<in> set names"
       "visible e" "length segs = length es" "set segs \<subseteq> {seg_blank, seg_bar}"
       "conn \<in> {glyph_last, glyph_tee}" "line = prefix @ concat segs @ conn @ e"
    by blast
  have "length (concat segs) = 4 * length es"
    using concat_segments_length [OF r(6)] r(5) by simp
  with r(1,2,3,4,6,7,8) show "\<exists>es dir names e segs conn.
            descend os path es = Some dir \<and> listdir os dir = Inr names \<and> e \<in> set names
            \<and> visible e \<and> conn \<in> {glyph_last, glyph_tee} \<and> set segs \<subseteq> {seg_blank, seg_bar}
            \<and> length (concat segs) = 4 * length es
            \<and> line = prefix @ concat segs @ conn @ e"
    by blast
next
  fix es dir names e
  assume a: "descend os path es = Some dir \<and> listdir os dir = Inr names \<and> e \<in> set names
            \<and> visible e"
  then have d: "descend os path es = Some dir" and ld: "listdir os dir = Inr names"
    and e: "e \<in> set names" and v: "visible e"
    by blast+
  from entry_block [OF assms d ld e v] obtain segs conn seg before sub after where
    r: "length segs = length es" "set segs \<subseteq> {seg_blank, seg_bar}"
       "conn \<in> {glyph_last, glyph_tee}" "seg \<in> {seg_blank, seg_bar}"
       "lines = before @ [prefix @ concat segs @ conn @ e] @ sub @ after"
       "isdir os (join os dir e) \<longrightarrow>
          (\<exists>k. build_tree k os (join os dir e) (prefix @ concat segs @ seg) = Some (Inr sub))"
       "\<not> isdir os (join os dir e) \<longrightarrow> sub = []"
    by blast
  have "length (concat segs) = 4 * length es"
    using concat_segments_length [OF r(2)] r(1) by simp
  with r(2,3,4,5,6,7) show "\<exists>segs conn seg before sub after.
               set segs \<subseteq> {seg_blank, seg_bar} \<and> length (concat segs) = 4 * length es
               \<and> conn \<in> {glyph_last, glyph_tee} \<and> seg \<in> {seg_blank, seg_bar}
               \<and> lines = before @ [prefix @ concat segs @ conn @ e] @ sub @ after
               \<and> (isdir os (join os dir e) \<longrightarrow>
                     (\<exists>k. build_tree k os (join os dir e) (prefix @ concat segs @ seg)
                            = Some (Inr sub)))
               \<and> (\<not> isdir os (join os dir e) \<longrightarrow> sub = [])"
    by blast
qed

theorem blocks_and_indentation_witness:
  "build_tree (Suc (Suc 0)) example_os (lit ''root'') [] =
     Some (Inr [glyph_tee @ lit ''a.txt'', glyph_tee @ lit ''sub'',
                seg_bar @ glyph_last @ lit ''inner.txt'', glyph_last @ lit ''z.txt''])
   \<and> descend example_os (lit ''root'') [lit ''sub''] = Some (lit ''root/sub'')
   \<and> listdir example_os (lit ''root/sub'') = Inr [lit ''inner.txt'']
   \<and> lit ''inner.txt'' \<in> set [lit ''inner.txt''] \<and> visible (lit ''inner.txt'')
   \<and> (\<exists>segs conn before sub after.
         length (concat segs) = 4 * length [lit ''sub'']
         \<and> [glyph_tee @ lit ''a.txt'', glyph_tee @ lit ''sub'',
             seg_bar @ glyph_last @ lit ''inner.txt'', glyph_last @ lit ''z.txt'']
            = before @ [[] @ concat segs @ conn @ lit ''inner.txt''] @ sub @ after)"
proof -
  have h: "build_tree (Suc (Suc 0)) example_os (lit ''root'') [] =
     Some (Inr [glyph_tee @ lit ''a.txt'', glyph_tee @ lit ''sub'',
                seg_bar @ glyph_last @ lit ''inner.txt'', glyph_last @ lit ''z.txt''])"
    by (rule example_tree)
  have d: "descend example_os (lit ''root'') [lit ''sub''] = Some (lit ''root/sub'')"
    by (simp add: example_os_def ev)
  have ld: "listdir example_os (lit ''root/sub'') = Inr [lit ''inner.txt'']"
    by (simp add: example_os_def ev)
  have e: "lit ''inner.txt'' \<in> set [lit ''inner.txt'']" by simp
  have v: "visible (lit ''inner.txt'')" by (simp add: ev)
  from blocks_and_indentation [OF h]
  have "descend example_os (lit ''root'') [lit ''sub''] = Some (lit ''root/sub'')
          \<and> listdir example_os (lit ''root/sub'') = Inr [lit ''inner.txt'']
          \<and> lit ''inner.txt'' \<in> set [lit ''inner.txt''] \<and> visible (lit ''inner.txt'') \<longrightarrow>
        (\<exists>segs conn seg before sub after.
               set segs \<subseteq> {seg_blank, seg_bar} \<and> length (concat segs) = 4 * length [lit ''sub'']
               \<and> conn \<in> {glyph_last, glyph_tee} \<and> seg \<in> {seg_blank, seg_bar}
               \<and> [glyph_tee @ lit ''a.txt'', glyph_tee @ lit ''sub'',
                   seg_bar @ glyph_last @ lit ''inner.txt'', glyph_last @ lit ''z.txt'']
                  = before @ [[] @ concat segs @ conn @ lit ''inner.txt''] @ sub @ after
               \<and> (isdir example_os (join example_os (lit ''root/sub'') (lit ''inner.txt'')) \<longrightarrow>
                     (\<exists>k. build_tree k example_os (join example_os (lit ''root/sub'') (lit ''inner.txt''))
                            ([] @ concat segs @ seg) = Some (Inr sub)))
               \<and> (\<not> isdir example_os (join example_os (lit ''root/sub'') (lit ''inner.txt'')) \<longrightarrow>
                     sub = []))"
    by (elim conjE allE)
  moreover have "descend example_os (lit ''root'') [lit ''sub''] = Some (lit ''root/sub'')
          \<and> listdir example_os (lit ''root/sub'') = Inr [lit ''inner.txt'']
          \<and> lit ''inner.txt'' \<in> set [lit ''inner.txt''] \<and> visible (lit ''inner.txt'')"
    using d ld e v by (intro conjI)
  ultimately have "\<exists>segs conn seg before sub after.
               set segs \<subseteq> {seg_blank, seg_bar} \<and> length (concat segs) = 4 * length [lit ''sub'']
               \<and> conn \<in> {glyph_last, glyph_tee} \<and> seg \<in> {seg_blank, seg_bar}
               \<and> [glyph_tee @ lit ''a.txt'', glyph_tee @ lit ''sub'',
                   seg_bar @ glyph_last @ lit ''inner.txt'', glyph_last @ lit ''z.txt'']
                  = before @ [[] @ concat segs @ conn @ lit ''inner.txt''] @ sub @ after
               \<and> (isdir example_os (join example_os (lit ''root/sub'') (lit ''inner.txt'')) \<longrightarrow>
                     (\<exists>k. build_tree k example_os (join example_os (lit ''root/sub'') (lit ''inner.txt''))
                            ([] @ concat segs @ seg) = Some (Inr sub)))
               \<and> (\<not> isdir example_os (join example_os (lit ''root/sub'') (lit ''inner.txt'')) \<longrightarrow>
                     sub = [])"
    by (rule mp)
  then have "\<exists>segs conn before sub after.
         length (concat segs) = 4 * length [lit ''sub'']
         \<and> [glyph_tee @ lit ''a.txt'', glyph_tee @ lit ''sub'',
             seg_bar @ glyph_last @ lit ''inner.txt'', glyph_last @ lit ''z.txt'']
            = before @ [[] @ concat segs @ conn @ lit ''inner.txt''] @ sub @ after"
    by (elim exE conjE) (intro exI conjI, assumption+)
  with h d ld e v show ?thesis by (intro conjI)
qed

section \<open>The prefix is only ever prepended\<close>

text \<open>
  Claim C9. For every state of the file system, every path and every prefix \<open>p\<close>,
  \<open>build_tree(path, p)\<close> is \<open>build_tree(path, '')\<close> with \<open>p\<close> put in front of every
  line; an exception or a missing result is the same in both.
\<close>

theorem prefix_homomorphic:
  "build_tree fuel os path p =
   map_lines (\<lambda>line. p @ line) (build_tree fuel os path [])"
  using build_tree_prepend [of fuel os path p "[]"] by simp

section \<open>The example of the specification\<close>

text \<open>
  Claim C7. A root directory holds exactly the files \<open>a.txt\<close> and \<open>z.txt\<close> and the
  directory \<open>sub\<close>, listed in any order, and \<open>sub\<close> holds exactly the file \<open>inner.txt\<close>.
  Then the lines the entry point joins are the root path, \<open>a.txt\<close> and \<open>sub\<close> with the
  continuation glyph, \<open>inner.txt\<close> with the terminal glyph behind one bar segment, and
  \<open>z.txt\<close> with the terminal glyph, in this order, whenever two nested calls are allowed.
\<close>

theorem spec_example:
  assumes "listdir os root = Inr names"
    and "mset names = mset [lit ''a.txt'', lit ''z.txt'', lit ''sub'']"
    and "\<not> isdir os (join os root (lit ''a.txt''))"
    and "\<not> isdir os (join os root (lit ''z.txt''))"
    and "isdir os (join os root (lit ''sub''))"
    and "listdir os (join os root (lit ''sub'')) = Inr [lit ''inner.txt'']"
    and "\<not> isdir os (join os (join os root (lit ''sub'')) (lit ''inner.txt''))"
  shows "main_lines (Suc (Suc fuel)) os root =
         Some (Inr [root, glyph_tee @ lit ''a.txt'', glyph_tee @ lit ''sub'',
                    seg_bar @ glyph_last @ lit ''inner.txt'', glyph_last @ lit ''z.txt''])"
proof -
  have "sort names = sort [lit ''a.txt'', lit ''z.txt'', lit ''sub'']"
    using assms(2) by (rule sort_mset_cong)
  then have entries: "filter visible (sort names) = [lit ''a.txt'', lit ''sub'', lit ''z.txt'']"
    by (simp add: ev)
  have inner: "filter visible (sort [lit ''inner.txt'']) = [lit ''inner.txt'']"
    by (simp add: ev)
  have sub: "build_tree (Suc fuel) os (join os root (lit ''sub'')) seg_bar =
             Some (Inr [seg_bar @ glyph_last @ lit ''inner.txt''])"
    using assms(6,7) by (simp add: ev is_last_iff)
  have "build_tree (Suc (Suc fuel)) os root [] =
        Some (Inr [glyph_tee @ lit ''a.txt'', glyph_tee @ lit ''sub'',
                   seg_bar @ glyph_last @ lit ''inner.txt'', glyph_last @ lit ''z.txt''])"
    using assms(1,3,4,5,6,7) by (simp add: entries ev is_last_iff)
  then show ?thesis by (simp add: main_lines_def)
qed

theorem spec_example_witness:
  "listdir example_os (lit ''root'') = Inr [lit ''z.txt'', lit ''sub'', lit ''a.txt'']
   \<and> mset [lit ''z.txt'', lit ''sub'', lit ''a.txt''] = mset [lit ''a.txt'', lit ''z.txt'', lit ''sub'']
   \<and> \<not> isdir example_os (join example_os (lit ''root'') (lit ''a.txt''))
   \<and> \<not> isdir example_os (join example_os (lit ''root'') (lit ''z.txt''))
   \<and> isdir example_os (join example_os (lit ''root'') (lit ''sub''))
   \<and> listdir example_os (join example_os (lit ''root'') (lit ''sub'')) = Inr [lit ''inner.txt'']
   \<and> \<not> isdir example_os (join example_os (join example_os (lit ''root'') (lit ''sub''))
                              (lit ''inner.txt''))
   \<and> main_lines (Suc (Suc 0)) example_os (lit ''root'') =
       Some (Inr [lit ''root'', glyph_tee @ lit ''a.txt'', glyph_tee @ lit ''sub'',
                  seg_bar @ glyph_last @ lit ''inner.txt'', glyph_last @ lit ''z.txt''])"
proof -
  have h1: "listdir example_os (lit ''root'') = Inr [lit ''z.txt'', lit ''sub'', lit ''a.txt'']"
    by (simp add: example_os_def)
  have h2: "mset [lit ''z.txt'', lit ''sub'', lit ''a.txt'']
              = mset [lit ''a.txt'', lit ''z.txt'', lit ''sub'']"
    by (simp add: ev)
  have h3: "\<not> isdir example_os (join example_os (lit ''root'') (lit ''a.txt''))"
    by (simp add: example_os_def ev)
  have h4: "\<not> isdir example_os (join example_os (lit ''root'') (lit ''z.txt''))"
    by (simp add: example_os_def ev)
  have h5: "isdir example_os (join example_os (lit ''root'') (lit ''sub''))"
    by (simp add: example_os_def ev)
  have h6: "listdir example_os (join example_os (lit ''root'') (lit ''sub'')) = Inr [lit ''inner.txt'']"
    by (simp add: example_os_def ev)
  have h7: "\<not> isdir example_os (join example_os (join example_os (lit ''root'') (lit ''sub''))
                              (lit ''inner.txt''))"
    by (simp add: example_os_def ev)
  note spec_example [OF h1 h2 h3 h4 h5 h6 h7, of 0]
  with h1 h2 h3 h4 h5 h6 h7 show ?thesis by (intro conjI)
qed

section \<open>The result depends on the file system alone\<close>

text \<open>
  Claim C8. Two runs of \<open>build_tree\<close> on the same path with the same prefix give the same
  result when the file system below the path is unchanged between them: \<open>os.listdir\<close>
  may answer in another order the second time, and anything \<open>build_tree\<close> does not visit
  may differ. The two runs agree at every nesting allowed, and if both return, at different
  nestings allowed, they return the same.
\<close>

theorem build_tree_deterministic:
  assumes "\<forall>es dir. descend os path es = Some dir \<longrightarrow>
             rel_sum (=) (\<lambda>a b. mset a = mset b) (listdir os dir) (listdir os' dir)
             \<and> (\<forall>names e. listdir os dir = Inr names \<and> e \<in> set names \<and> visible e \<longrightarrow>
                    isdir os' (join os dir e) = isdir os (join os dir e))"
    and "join os' = join os"
  shows "build_tree fuel os' path prefix = build_tree fuel os path prefix
         \<and> (\<forall>fuel' r r'. build_tree fuel os path prefix = Some r
                \<and> build_tree fuel' os' path prefix = Some r' \<longrightarrow> r' = r)"
proof (intro conjI allI impI)
  show "build_tree fuel os' path prefix = build_tree fuel os path prefix"
    using assms by (rule build_tree_agree)
next
  fix fuel' r r'
  assume a: "build_tree fuel os path prefix = Some r
                \<and> build_tree fuel' os' path prefix = Some r'"
  then have r: "build_tree fuel os path prefix = Some r"
    and r': "build_tree fuel' os' path prefix = Some r'"
    by blast+
  have "build_tree (max fuel fuel') os path prefix = Some r"
    using r by (rule build_tree_fuel_mono) simp
  moreover have "build_tree (max fuel fuel') os' path prefix = Some r'"
    using r' by (rule build_tree_fuel_mono) simp
  moreover have "build_tree (max fuel fuel') os' path prefix
                   = build_tree (max fuel fuel') os path prefix"
    using assms by (rule build_tree_agree)
  ultimately show "r' = r" by simp
qed

theorem build_tree_deterministic_witness:
  "join example_os_reversed = join example_os
   \<and> listdir example_os (lit ''root'') = Inr [lit ''z.txt'', lit ''sub'', lit ''a.txt'']
   \<and> listdir example_os_reversed (lit ''root'') = Inr [lit ''a.txt'', lit ''sub'', lit ''z.txt'']
   \<and> build_tree (Suc (Suc 0)) example_os_reversed (lit ''root'') [] =
       build_tree (Suc (Suc 0)) example_os (lit ''root'') []"
proof -
  have h1: "\<forall>es dir. descend example_os (lit ''root'') es = Some dir \<longrightarrow>
             rel_sum (=) (\<lambda>a b. mset a = mset b) (listdir example_os dir)
               (listdir example_os_reversed dir)
             \<and> (\<forall>names e. listdir example_os dir = Inr names \<and> e \<in> set names \<and> visible e \<longrightarrow>
                    isdir example_os_reversed (join example_os dir e)
                      = isdir example_os (join example_os dir e))"
  proof (intro allI impI conjI)
    fix dir
    show "rel_sum (=) (\<lambda>a b. mset a = mset b) (listdir example_os dir)
            (listdir example_os_reversed dir)"
      by (cases "listdir example_os dir") (simp_all add: example_os_reversed_def)
  next
    fix dir e
    show "isdir example_os_reversed (join example_os dir e)
            = isdir example_os (join example_os dir e)"
      by (simp add: example_os_reversed_def)
  qed
  have h2: "join example_os_reversed = join example_os"
    by (simp add: example_os_reversed_def)
  have "listdir example_os (lit ''root'') = Inr [lit ''z.txt'', lit ''sub'', lit ''a.txt'']"
    by (simp add: example_os_def)
  moreover have "listdir example_os_reversed (lit ''root'')
                   = Inr [lit ''a.txt'', lit ''sub'', lit ''z.txt'']"
    by (simp add: example_os_reversed_def example_os_def)
  moreover from build_tree_deterministic [OF h1 h2, of "Suc (Suc 0)" "[]"]
  have "build_tree (Suc (Suc 0)) example_os_reversed (lit ''root'') [] =
        build_tree (Suc (Suc 0)) example_os (lit ''root'') []"
    by (rule conjunct1)
  ultimately show ?thesis using h2 by (intro conjI)
qed

section \<open>As many lines as files and directories\<close>

text \<open>
  Claim C5. When the file system below the path is a finite tree in which no name begins
  with a dot and none is \<open>node_modules\<close>, \<open>build_tree\<close> returns as many lines as there are
  files and directories below the root, the root not counted, and the entry point has one
  line more, the root path. The files and directories counted are those a recursive
  descent reaches: a directory that may not be listed is counted, and nothing below it is,
  as no listing reaches it. The nesting of calls allowed exceeds the height of the tree.
\<close>

theorem line_count:
  assumes "tree_at os path t" and "is_dir t" and "all_visible t" and "height t < fuel"
  shows "(\<exists>lines. build_tree fuel os path prefix = Some (Inr lines) \<and> length lines = count t)
       \<and> (\<exists>lines. main_lines fuel os path = Some (Inr lines) \<and> length lines = Suc (count t))"
proof -
  have *: "\<exists>lines. build_tree fuel os path pre = Some (Inr lines) \<and> length lines = count t" for pre
    using tree_result [OF assms(1,4), of pre] assms(2,3) by blast
  from * [of "[]"] have "\<exists>lines. main_lines fuel os path = Some (Inr lines)
                           \<and> length lines = Suc (count t)"
    by (auto simp: main_lines_def)
  with * [of prefix] show ?thesis by (rule conjI)
qed

theorem line_count_witness:
  "tree_at example_os (lit ''root'') example_tree_of
   \<and> is_dir example_tree_of
   \<and> all_visible example_tree_of
   \<and> height example_tree_of < Suc (Suc (Suc 0))
   \<and> count example_tree_of = 4
   \<and> (\<exists>lines. build_tree (Suc (Suc (Suc 0))) example_os (lit ''root'') [] = Some (Inr lines)
          \<and> length lines = count example_tree_of)
   \<and> (\<exists>lines. main_lines (Suc (Suc (Suc 0))) example_os (lit ''root'') = Some (Inr lines)
          \<and> length lines = Suc (count example_tree_of))"
proof -
  have h1: "tree_at example_os (lit ''root'') example_tree_of"
    by (simp add: example_os_def example_tree_of_def ev)
  have h2: "is_dir example_tree_of"
    by (simp add: example_tree_of_def)
  have h3: "all_visible example_tree_of"
    by (simp add: example_tree_of_def ev)
  have h4: "height example_tree_of < Suc (Suc (Suc 0))"
    by (simp add: example_tree_of_def)
  have c: "count example_tree_of = 4"
    by (simp add: example_tree_of_def)
  note line_count [OF h1 h2 h3 h4, of "[]"]
  then have "\<exists>lines. build_tree (Suc (Suc (Suc 0))) example_os (lit ''root'') [] = Some (Inr lines)
          \<and> length lines = count example_tree_of"
    and "\<exists>lines. main_lines (Suc (Suc (Suc 0))) example_os (lit ''root'') = Some (Inr lines)
          \<and> length lines = Suc (count example_tree_of)"
    by (rule conjunct1, rule conjunct2)
  with h1 h2 h3 h4 c show ?thesis by (intro conjI)
qed

section \<open>Termination on a finite tree\<close>



end
